theory Spec2Isabelle
  imports Main
begin

section \<open>JavaScript values used by the game\<close>

text \<open>
  A board cell and a player symbol are JavaScript strings; a cell may also hold
  \<open>null\<close> or \<open>undefined\<close>.  \<open>Str s\<close> is the string \<open>s\<close>.  On these values the
  comparison \<open>===\<close> is equality, and \<open>null\<close> and \<open>undefined\<close> are different.  A
  value is truthy when it is a non-empty string.
\<close>

datatype jsval = Null | Undefined | Str string

fun truthy :: "jsval \<Rightarrow> bool" where
  "truthy Null = False"
| "truthy Undefined = False"
| "truthy (Str s) = (s \<noteq> [])"

text \<open>
  Scores are JavaScript numbers: the integers \<open>10 - depth\<close>, \<open>depth - 10\<close> and \<open>0\<close>,
  together with \<open>-Infinity\<close> and \<open>Infinity\<close>, the initial values of the running
  extrema and of the search window.
\<close>

datatype jsnum = NegInf | Fin int | PosInf

instantiation jsnum :: linorder
begin

fun less_eq_jsnum :: "jsnum \<Rightarrow> jsnum \<Rightarrow> bool" where
  "less_eq_jsnum NegInf y = True"
| "less_eq_jsnum (Fin a) NegInf = False"
| "less_eq_jsnum (Fin a) (Fin b) = (a \<le> b)"
| "less_eq_jsnum (Fin a) PosInf = True"
| "less_eq_jsnum PosInf NegInf = False"
| "less_eq_jsnum PosInf (Fin b) = False"
| "less_eq_jsnum PosInf PosInf = True"

definition less_jsnum :: "jsnum \<Rightarrow> jsnum \<Rightarrow> bool" where
  "less_jsnum x y = (x \<le> y \<and> \<not> y \<le> x)"

instance
proof
  fix x y z :: jsnum
  show "(x < y) = (x \<le> y \<and> \<not> y \<le> x)"
    by (simp add: less_jsnum_def)
  show "x \<le> x"
    by (cases x) simp_all
  show "x \<le> y \<Longrightarrow> y \<le> z \<Longrightarrow> x \<le> z"
    by (cases x; cases y; cases z) simp_all
  show "x \<le> y \<Longrightarrow> y \<le> x \<Longrightarrow> x = y"
    by (cases x; cases y) simp_all
  show "x \<le> y \<or> y \<le> x"
    by (cases x; cases y) auto
qed

end

section \<open>The board of the AI player (ai.js)\<close>

text \<open>
  \<open>AIPlayer\<close> works on a 3x3 array of rows.  A move is the object \<open>{row, col}\<close>.
\<close>

type_synonym board = "jsval list list"

datatype move = Move (row: nat) (col: nat)

datatype difficulty = Easy | Medium | Hard

definition cell :: "board \<Rightarrow> nat \<Rightarrow> nat \<Rightarrow> jsval" where
  "cell b r c = b ! r ! c"

text \<open>\<open>_cloneBoard\<close>: \<open>board.map(row => [...row])\<close>.\<close>

definition cloneBoard :: "board \<Rightarrow> board" where
  "cloneBoard b = map (\<lambda>row. row) b"

text \<open>The assignment \<open>newBoard[move.row][move.col] = symbol\<close>.\<close>

definition setCell :: "board \<Rightarrow> move \<Rightarrow> jsval \<Rightarrow> board" where
  "setCell b m s = b[row m := (b ! row m)[col m := s]]"

text \<open>\<open>_validateBoard\<close> accepts exactly the arrays of three rows of three cells.\<close>

definition validBoard :: "board \<Rightarrow> bool" where
  "validBoard b = (length b = 3 \<and> (\<forall>r \<in> set b. length r = 3))"

subsection \<open>\<open>_checkWinner\<close>\<close>

definition rowLine :: "board \<Rightarrow> nat \<Rightarrow> bool" where
  "rowLine b r = (truthy (cell b r 0) \<and> cell b r 0 = cell b r 1 \<and> cell b r 1 = cell b r 2)"

definition colLine :: "board \<Rightarrow> nat \<Rightarrow> bool" where
  "colLine b c = (truthy (cell b 0 c) \<and> cell b 0 c = cell b 1 c \<and> cell b 1 c = cell b 2 c)"

definition diagLine :: "board \<Rightarrow> bool" where
  "diagLine b = (truthy (cell b 0 0) \<and> cell b 0 0 = cell b 1 1 \<and> cell b 1 1 = cell b 2 2)"

definition antiLine :: "board \<Rightarrow> bool" where
  "antiLine b = (truthy (cell b 0 2) \<and> cell b 0 2 = cell b 1 1 \<and> cell b 1 1 = cell b 2 0)"

definition checkWinner :: "board \<Rightarrow> jsval" where
  "checkWinner b =
     (case find (rowLine b) [0, 1, 2] of
        Some r \<Rightarrow> cell b r 0
      | None \<Rightarrow>
          (case find (colLine b) [0, 1, 2] of
             Some c \<Rightarrow> cell b 0 c
           | None \<Rightarrow>
               if diagLine b then cell b 0 0
               else if antiLine b then cell b 0 2
               else Null))"

subsection \<open>\<open>_getAvailableMoves\<close> and \<open>_isBoardFull\<close>\<close>

definition isAvailable :: "board \<Rightarrow> nat \<Rightarrow> nat \<Rightarrow> bool" where
  "isAvailable b r c = (\<not> truthy (cell b r c) \<or> cell b r c = Str [])"

definition getAvailableMoves :: "board \<Rightarrow> move list" where
  "getAvailableMoves b =
     concat (map (\<lambda>r. map (Move r) (filter (isAvailable b r) [0, 1, 2])) [0, 1, 2])"

definition isBoardFull :: "board \<Rightarrow> bool" where
  "isBoardFull b = (length (getAvailableMoves b) = 0)"

subsection \<open>\<open>_minimax\<close>: the search with alpha-beta pruning\<close>

text \<open>
  The two \<open>for\<close> loops of \<open>_minimax\<close>, with their \<open>break\<close>.  \<open>rec\<close> is the recursive
  call on the child position; it yields \<open>None\<close> when the recursion does not return.
\<close>

fun maxLoop :: "(board \<Rightarrow> jsnum \<Rightarrow> jsnum \<Rightarrow> jsnum option) \<Rightarrow> board \<Rightarrow> jsval \<Rightarrow> move list
    \<Rightarrow> jsnum \<Rightarrow> jsnum \<Rightarrow> jsnum \<Rightarrow> jsnum option" where
  "maxLoop rec b p [] alpha beta maxScore = Some maxScore"
| "maxLoop rec b p (m # ms) alpha beta maxScore =
     (case rec (setCell (cloneBoard b) m p) alpha beta of
        None \<Rightarrow> None
      | Some score \<Rightarrow>
          (if beta \<le> max alpha score then Some (max maxScore score)
           else maxLoop rec b p ms (max alpha score) beta (max maxScore score)))"

fun minLoop :: "(board \<Rightarrow> jsnum \<Rightarrow> jsnum \<Rightarrow> jsnum option) \<Rightarrow> board \<Rightarrow> jsval \<Rightarrow> move list
    \<Rightarrow> jsnum \<Rightarrow> jsnum \<Rightarrow> jsnum \<Rightarrow> jsnum option" where
  "minLoop rec b opp [] alpha beta minScore = Some minScore"
| "minLoop rec b opp (m # ms) alpha beta minScore =
     (case rec (setCell (cloneBoard b) m opp) alpha beta of
        None \<Rightarrow> None
      | Some score \<Rightarrow>
          (if min beta score \<le> alpha then Some (min minScore score)
           else minLoop rec b opp ms alpha (min beta score) (min minScore score)))"

text \<open>
  \<open>_minimax\<close>.  The first argument bounds the depth of the recursion: a call that
  needs more nested calls than that does not return (\<open>None\<close>).  \<open>depth\<close> is a
  JavaScript number; \<open>_getMiniMaxMove\<close> passes 0 and every nested call adds 1, at
  most nine times on a 3x3 board, so \<open>depth\<close> is a small integer and \<open>10 - depth\<close>,
  \<open>depth - 10\<close> and \<open>depth + 1\<close> are exact.  The model takes \<open>depth\<close> as an integer:
  it is the code for the integers below \<open>2^53\<close> in absolute value, where the
  arithmetic of JavaScript numbers does not round.
\<close>

fun minimax :: "nat \<Rightarrow> board \<Rightarrow> int \<Rightarrow> bool \<Rightarrow> jsval \<Rightarrow> jsval \<Rightarrow> jsnum \<Rightarrow> jsnum \<Rightarrow> jsnum option" where
  "minimax 0 b depth isMaximizing p opp alpha beta = None"
| "minimax (Suc n) b depth isMaximizing p opp alpha beta =
     (if checkWinner b = p then Some (Fin (10 - depth))
      else if checkWinner b = opp then Some (Fin (depth - 10))
      else if isBoardFull b then Some (Fin 0)
      else if isMaximizing then
        maxLoop (\<lambda>b' a be. minimax n b' (depth + 1) False p opp a be)
          b p (getAvailableMoves b) alpha beta NegInf
      else
        minLoop (\<lambda>b' a be. minimax n b' (depth + 1) True p opp a be)
          b opp (getAvailableMoves b) alpha beta PosInf)"


subsection \<open>\<open>_getMiniMaxMove\<close>\<close>

text \<open>
  The loop over the candidate moves: the state is \<open>(bestScore, bestMove)\<close>, with
  \<open>None\<close> for \<open>bestMove = null\<close>.
\<close>

fun miniMaxLoop :: "nat \<Rightarrow> board \<Rightarrow> jsval \<Rightarrow> jsval \<Rightarrow> move list \<Rightarrow> jsnum \<times> move option
    \<Rightarrow> (jsnum \<times> move option) option" where
  "miniMaxLoop n b p opp [] best = Some best"
| "miniMaxLoop n b p opp (m # ms) best =
     (case minimax n (setCell (cloneBoard b) m p) 0 False p opp NegInf PosInf of
        None \<Rightarrow> None
      | Some score \<Rightarrow>
          miniMaxLoop n b p opp ms (if fst best < score then (score, Some m) else best))"

text \<open>An array read \<open>xs[i]\<close>: \<open>undefined\<close> (here \<open>None\<close>) out of range.\<close>

definition arrayGet :: "'a list \<Rightarrow> nat \<Rightarrow> 'a option" where
  "arrayGet xs i = (if i < length xs then Some (xs ! i) else None)"

text \<open>
  The errors \<open>getMove\<close> throws, one constructor for each message; \<open>StackExhausted\<close>
  is the search not returning.
\<close>

datatype error =
    BoardNot3x3
  | RowNot3Cells
  | SymbolsMissing
  | SymbolsEqual
  | NoAvailableMoves
  | StackExhausted

text \<open>The depth bound given to the search: a 3x3 board has at most nine empty cells.\<close>

definition searchFuel :: nat where
  "searchFuel = 10"

definition getMiniMaxMove :: "board \<Rightarrow> jsval \<Rightarrow> jsval \<Rightarrow> error + move option" where
  "getMiniMaxMove b p opp =
     (case miniMaxLoop searchFuel b p opp (getAvailableMoves b) (NegInf, None) of
        None \<Rightarrow> Inl StackExhausted
      | Some best \<Rightarrow>
          (case snd best of
             Some m \<Rightarrow> Inr (Some m)
           | None \<Rightarrow> Inr (arrayGet (getAvailableMoves b) 0)))"

subsection \<open>The easy and the medium player\<close>

text \<open>
  \<open>Math.floor(Math.random() * n)\<close> is an index below \<open>n\<close>; the random source is the
  parameter \<open>u\<close>.
\<close>

definition randomIndex :: "nat \<Rightarrow> nat \<Rightarrow> nat" where
  "randomIndex u n = (if n = 0 then 0 else u mod n)"

definition getRandomMove :: "nat \<Rightarrow> move list \<Rightarrow> move option" where
  "getRandomMove u availableMoves = arrayGet availableMoves (randomIndex u (length availableMoves))"

definition findWinningMove :: "board \<Rightarrow> jsval \<Rightarrow> move list \<Rightarrow> move option" where
  "findWinningMove b s availableMoves =
     find (\<lambda>m. checkWinner (setCell (cloneBoard b) m s) = s) availableMoves"

definition isCorner :: "move \<Rightarrow> bool" where
  "isCorner m = ((row m = 0 \<or> row m = 2) \<and> (col m = 0 \<or> col m = 2))"

definition getMediumMove :: "nat \<Rightarrow> board \<Rightarrow> jsval \<Rightarrow> jsval \<Rightarrow> move list \<Rightarrow> move option" where
  "getMediumMove u b p opp availableMoves =
     (case findWinningMove b p availableMoves of
        Some m \<Rightarrow> Some m
      | None \<Rightarrow>
     (case findWinningMove b opp availableMoves of
        Some m \<Rightarrow> Some m
      | None \<Rightarrow>
     (case find (\<lambda>m. row m = 1 \<and> col m = 1) availableMoves of
        Some m \<Rightarrow> Some m
      | None \<Rightarrow>
          (if length (filter isCorner availableMoves) > 0
           then arrayGet (filter isCorner availableMoves)
                  (randomIndex u (length (filter isCorner availableMoves)))
           else getRandomMove u availableMoves))))"

subsection \<open>\<open>getMove\<close>\<close>

definition validateBoard :: "board \<Rightarrow> error option" where
  "validateBoard b =
     (if length b \<noteq> 3 then Some BoardNot3x3
      else if list_ex (\<lambda>r. length r \<noteq> 3) b then Some RowNot3Cells
      else None)"

definition validateSymbols :: "jsval \<Rightarrow> jsval \<Rightarrow> error option" where
  "validateSymbols p opp =
     (if \<not> truthy p \<or> \<not> truthy opp then Some SymbolsMissing
      else if p = opp then Some SymbolsEqual
      else None)"

definition getMove :: "difficulty \<Rightarrow> nat \<Rightarrow> board \<Rightarrow> jsval \<Rightarrow> jsval \<Rightarrow> error + move option" where
  "getMove d u b p opp =
     (case validateBoard b of
        Some e \<Rightarrow> Inl e
      | None \<Rightarrow>
     (case validateSymbols p opp of
        Some e \<Rightarrow> Inl e
      | None \<Rightarrow>
          (if length (getAvailableMoves b) = 0 then Inl NoAvailableMoves
           else (case d of
                   Easy \<Rightarrow> Inr (getRandomMove u (getAvailableMoves b))
                 | Medium \<Rightarrow> Inr (getMediumMove u b p opp (getAvailableMoves b))
                 | Hard \<Rightarrow> getMiniMaxMove b p opp))))"


subsection \<open>The search without pruning\<close>

text \<open>
  The reference the pruned search is compared with: the same recursion and the same
  scores, every candidate visited, no window and no \<open>break\<close>.
\<close>

fun maxAll :: "(board \<Rightarrow> jsnum option) \<Rightarrow> board \<Rightarrow> jsval \<Rightarrow> move list \<Rightarrow> jsnum \<Rightarrow> jsnum option" where
  "maxAll rec b p [] maxScore = Some maxScore"
| "maxAll rec b p (m # ms) maxScore =
     (case rec (setCell (cloneBoard b) m p) of
        None \<Rightarrow> None
      | Some score \<Rightarrow> maxAll rec b p ms (max maxScore score))"

fun minAll :: "(board \<Rightarrow> jsnum option) \<Rightarrow> board \<Rightarrow> jsval \<Rightarrow> move list \<Rightarrow> jsnum \<Rightarrow> jsnum option" where
  "minAll rec b opp [] minScore = Some minScore"
| "minAll rec b opp (m # ms) minScore =
     (case rec (setCell (cloneBoard b) m opp) of
        None \<Rightarrow> None
      | Some score \<Rightarrow> minAll rec b opp ms (min minScore score))"

fun bruteMinimax :: "nat \<Rightarrow> board \<Rightarrow> int \<Rightarrow> bool \<Rightarrow> jsval \<Rightarrow> jsval \<Rightarrow> jsnum option" where
  "bruteMinimax 0 b depth isMaximizing p opp = None"
| "bruteMinimax (Suc n) b depth isMaximizing p opp =
     (if checkWinner b = p then Some (Fin (10 - depth))
      else if checkWinner b = opp then Some (Fin (depth - 10))
      else if isBoardFull b then Some (Fin 0)
      else if isMaximizing then
        maxAll (\<lambda>b'. bruteMinimax n b' (depth + 1) False p opp) b p (getAvailableMoves b) NegInf
      else
        minAll (\<lambda>b'. bruteMinimax n b' (depth + 1) True p opp) b opp (getAvailableMoves b) PosInf)"

fun bruteLoop :: "nat \<Rightarrow> board \<Rightarrow> jsval \<Rightarrow> jsval \<Rightarrow> move list \<Rightarrow> jsnum \<times> move option
    \<Rightarrow> (jsnum \<times> move option) option" where
  "bruteLoop n b p opp [] best = Some best"
| "bruteLoop n b p opp (m # ms) best =
     (case bruteMinimax n (setCell (cloneBoard b) m p) 0 False p opp of
        None \<Rightarrow> None
      | Some score \<Rightarrow>
          bruteLoop n b p opp ms (if fst best < score then (score, Some m) else best))"

definition bruteMove :: "board \<Rightarrow> jsval \<Rightarrow> jsval \<Rightarrow> error + move option" where
  "bruteMove b p opp =
     (case bruteLoop searchFuel b p opp (getAvailableMoves b) (NegInf, None) of
        None \<Rightarrow> Inl StackExhausted
      | Some best \<Rightarrow>
          (case snd best of
             Some m \<Rightarrow> Inr (Some m)
           | None \<Rightarrow> Inr (arrayGet (getAvailableMoves b) 0)))"

section \<open>The game state (game.js) and its helpers (utils.js)\<close>

text \<open>\<open>GameState\<close> keeps the board as one array of nine cells, the empty cell being \<open>''\<close>.\<close>

definition PLAYER_X :: jsval where
  "PLAYER_X = Str ''X''"

definition PLAYER_O :: jsval where
  "PLAYER_O = Str ''O''"

definition EMPTY_CELL :: jsval where
  "EMPTY_CELL = Str []"

definition STATUS_PLAYING :: string where
  "STATUS_PLAYING = ''playing''"

definition STATUS_WIN :: string where
  "STATUS_WIN = ''win''"

definition STATUS_DRAW :: string where
  "STATUS_DRAW = ''draw''"

definition WINNING_COMBINATIONS :: "(nat \<times> nat \<times> nat) list" where
  "WINNING_COMBINATIONS =
     [(0, 1, 2), (3, 4, 5), (6, 7, 8),
      (0, 3, 6), (1, 4, 7), (2, 5, 8),
      (0, 4, 8), (2, 4, 6)]"

text \<open>
  A row or column argument is a JavaScript value: \<open>Whole i\<close> is the integer \<open>i\<close>,
  \<open>NotWhole\<close> any value for which \<open>Number.isInteger\<close> is false.
\<close>

datatype coord = Whole int | NotWhole

fun isValidPosition :: "coord \<Rightarrow> coord \<Rightarrow> bool" where
  "isValidPosition (Whole r) (Whole c) = (r \<ge> 0 \<and> r < 3 \<and> c \<ge> 0 \<and> c < 3)"
| "isValidPosition r c = False"

text \<open>\<open>coordinatesToIndex\<close> throws on an invalid position (\<open>None\<close>).\<close>

fun coordinatesToIndex :: "coord \<Rightarrow> coord \<Rightarrow> nat option" where
  "coordinatesToIndex (Whole r) (Whole c) =
     (if \<not> isValidPosition (Whole r) (Whole c) then None else Some (nat (r * 3 + c)))"
| "coordinatesToIndex r c = None"

definition isCellEmpty :: "jsval \<Rightarrow> bool" where
  "isCellEmpty c = (c = EMPTY_CELL)"

definition isValidPlayer :: "jsval \<Rightarrow> bool" where
  "isValidPlayer pl = (pl = PLAYER_X \<or> pl = PLAYER_O)"

definition getOppositePlayer :: "jsval \<Rightarrow> jsval option" where
  "getOppositePlayer pl =
     (if \<not> isValidPlayer pl then None
      else Some (if pl = PLAYER_X then PLAYER_O else PLAYER_X))"

definition createEmptyBoard :: "jsval list" where
  "createEmptyBoard = replicate 9 EMPTY_CELL"

definition countEmptyCells :: "jsval list \<Rightarrow> nat" where
  "countEmptyCells bd = length (filter isCellEmpty bd)"

text \<open>A read \<open>board[i]\<close> of the flat board: \<open>undefined\<close> out of range.\<close>

definition cellAt :: "jsval list \<Rightarrow> nat \<Rightarrow> jsval" where
  "cellAt bd i = (if i < length bd then bd ! i else Undefined)"

record moveRecord =
  mrRow :: coord
  mrCol :: coord
  mrPlayer :: jsval
  mrMoveNumber :: nat

record gameState =
  gsBoard :: "jsval list"
  gsCurrentPlayer :: jsval
  gsGameStatus :: string
  gsWinner :: jsval
  gsWinningCombination :: "(nat \<times> nat \<times> nat) option"
  gsMoveHistory :: "moveRecord list"
  gsLogging :: bool

datatype gameError =
    GameAlreadyOver string
  | InvalidPosition coord coord
  | CellOccupied coord coord jsval
  | InvalidPlayer jsval

definition newGame :: "bool \<Rightarrow> gameState" where
  "newGame enableLogging =
     \<lparr>gsBoard = createEmptyBoard, gsCurrentPlayer = PLAYER_X, gsGameStatus = STATUS_PLAYING,
      gsWinner = Null, gsWinningCombination = None, gsMoveHistory = [],
      gsLogging = enableLogging\<rparr>"

definition isGameOver :: "gameState \<Rightarrow> bool" where
  "isGameOver s = (gsGameStatus s \<noteq> STATUS_PLAYING)"

definition validateMove :: "gameState \<Rightarrow> coord \<Rightarrow> coord \<Rightarrow> gameError option" where
  "validateMove s r c =
     (if isGameOver s then Some (GameAlreadyOver (gsGameStatus s))
      else if \<not> isValidPosition r c then Some (InvalidPosition r c)
      else (case coordinatesToIndex r c of
              None \<Rightarrow> Some (InvalidPosition r c)
            | Some i \<Rightarrow>
                if \<not> isCellEmpty (cellAt (gsBoard s) i)
                then Some (CellOccupied r c (cellAt (gsBoard s) i))
                else None))"

definition lineComplete :: "jsval list \<Rightarrow> nat \<times> nat \<times> nat \<Rightarrow> bool" where
  "lineComplete bd l =
     (case l of (a, b, c) \<Rightarrow>
        cellAt bd a \<noteq> EMPTY_CELL \<and> cellAt bd a = cellAt bd b \<and> cellAt bd a = cellAt bd c)"

text \<open>\<open>checkWin\<close> records the first complete line in \<open>_winningCombination\<close>.\<close>

definition checkWin :: "gameState \<Rightarrow> gameState \<times> bool" where
  "checkWin s =
     (case find (lineComplete (gsBoard s)) WINNING_COMBINATIONS of
        Some l \<Rightarrow> (s\<lparr>gsWinningCombination := Some l\<rparr>, True)
      | None \<Rightarrow> (s, False))"

definition checkDraw :: "gameState \<Rightarrow> gameState \<times> bool" where
  "checkDraw s =
     (if countEmptyCells (gsBoard s) = 0
      then (fst (checkWin s), \<not> snd (checkWin s))
      else (s, False))"

text \<open>
  \<open>makeMove\<close> returns the state after the call and either the error it throws or the
  \<open>gameStatus\<close> of its result object.
\<close>

definition makeMove :: "gameState \<Rightarrow> coord \<Rightarrow> coord \<Rightarrow> gameState \<times> (gameError + string)" where
  "makeMove s r c =
     (case validateMove s r c of
        Some e \<Rightarrow> (s, Inl e)
      | None \<Rightarrow>
     (case coordinatesToIndex r c of
        None \<Rightarrow> (s, Inl (InvalidPosition r c))
      | Some i \<Rightarrow>
          (let s1 = s\<lparr>gsBoard := (gsBoard s)[i := gsCurrentPlayer s]\<rparr>;
               s2 = s1\<lparr>gsMoveHistory := gsMoveHistory s1 @
                      [\<lparr>mrRow = r, mrCol = c, mrPlayer = gsCurrentPlayer s1,
                        mrMoveNumber = length (gsMoveHistory s1) + 1\<rparr>]\<rparr>;
               s3 = fst (checkWin s2)
           in if snd (checkWin s2)
              then (s3\<lparr>gsGameStatus := STATUS_WIN, gsWinner := gsCurrentPlayer s3\<rparr>, Inr STATUS_WIN)
              else (let s4 = fst (checkDraw s3)
                    in if snd (checkDraw s3)
                       then (s4\<lparr>gsGameStatus := STATUS_DRAW\<rparr>, Inr STATUS_DRAW)
                       else (case getOppositePlayer (gsCurrentPlayer s4) of
                               None \<Rightarrow> (s4, Inl (InvalidPlayer (gsCurrentPlayer s4)))
                             | Some q \<Rightarrow> (s4\<lparr>gsCurrentPlayer := q\<rparr>, Inr (gsGameStatus s4)))))))"

section \<open>The AI player with its arrays in a store\<close>

text \<open>
  JavaScript arrays are objects: a board handed to \<open>getMove\<close> is shared with the caller,
  and an assignment \<open>newBoard[r][c] = s\<close> is visible through every reference to that row.
  Here the row arrays live in a store, a list in which an array's address is its
  position; a board is the list of the addresses of its rows (the outer array is never
  assigned to, so it is kept as that list).  Each function below is the function of the
  same name above with the store passed through it.
\<close>

type_synonym heap = "jsval list list"

type_synonym bref = "nat list"

definition readBoard :: "heap \<Rightarrow> bref \<Rightarrow> board" where
  "readBoard h br = map (\<lambda>a. h ! a) br"

definition wfRef :: "heap \<Rightarrow> bref \<Rightarrow> bool" where
  "wfRef h br = list_all (\<lambda>a. a < length h) br"

text \<open>
  \<open>_cloneBoard\<close> allocates a copy of every row behind the rows already in the store.
\<close>

definition cloneBoardH :: "heap \<Rightarrow> bref \<Rightarrow> heap \<times> bref" where
  "cloneBoardH h br = (h @ map (\<lambda>a. h ! a) br, [length h ..< length h + length br])"

text \<open>
  The assignment \<open>newBoard[move.row][move.col] = symbol\<close> overwrites the row array that the
  board refers to.  The moves come from \<open>_getAvailableMoves\<close>, so the row exists.
\<close>

definition setCellH :: "heap \<Rightarrow> bref \<Rightarrow> move \<Rightarrow> jsval \<Rightarrow> heap" where
  "setCellH h br m s =
     (if row m < length br then h[br ! row m := (h ! (br ! row m))[col m := s]] else h)"

fun maxLoopH :: "(heap \<Rightarrow> bref \<Rightarrow> jsnum \<Rightarrow> jsnum \<Rightarrow> (heap \<times> jsnum) option) \<Rightarrow> heap \<Rightarrow> bref
    \<Rightarrow> jsval \<Rightarrow> move list \<Rightarrow> jsnum \<Rightarrow> jsnum \<Rightarrow> jsnum \<Rightarrow> (heap \<times> jsnum) option" where
  "maxLoopH rec h br p [] alpha beta maxScore = Some (h, maxScore)"
| "maxLoopH rec h br p (m # ms) alpha beta maxScore =
     (case rec (setCellH (fst (cloneBoardH h br)) (snd (cloneBoardH h br)) m p)
             (snd (cloneBoardH h br)) alpha beta of
        None \<Rightarrow> None
      | Some (h', score) \<Rightarrow>
          (if beta \<le> max alpha score then Some (h', max maxScore score)
           else maxLoopH rec h' br p ms (max alpha score) beta (max maxScore score)))"

fun minLoopH :: "(heap \<Rightarrow> bref \<Rightarrow> jsnum \<Rightarrow> jsnum \<Rightarrow> (heap \<times> jsnum) option) \<Rightarrow> heap \<Rightarrow> bref
    \<Rightarrow> jsval \<Rightarrow> move list \<Rightarrow> jsnum \<Rightarrow> jsnum \<Rightarrow> jsnum \<Rightarrow> (heap \<times> jsnum) option" where
  "minLoopH rec h br opp [] alpha beta minScore = Some (h, minScore)"
| "minLoopH rec h br opp (m # ms) alpha beta minScore =
     (case rec (setCellH (fst (cloneBoardH h br)) (snd (cloneBoardH h br)) m opp)
             (snd (cloneBoardH h br)) alpha beta of
        None \<Rightarrow> None
      | Some (h', score) \<Rightarrow>
          (if min beta score \<le> alpha then Some (h', min minScore score)
           else minLoopH rec h' br opp ms alpha (min beta score) (min minScore score)))"

fun minimaxH :: "nat \<Rightarrow> heap \<Rightarrow> bref \<Rightarrow> int \<Rightarrow> bool \<Rightarrow> jsval \<Rightarrow> jsval \<Rightarrow> jsnum \<Rightarrow> jsnum
    \<Rightarrow> (heap \<times> jsnum) option" where
  "minimaxH 0 h br depth isMaximizing p opp alpha beta = None"
| "minimaxH (Suc n) h br depth isMaximizing p opp alpha beta =
     (if checkWinner (readBoard h br) = p then Some (h, Fin (10 - depth))
      else if checkWinner (readBoard h br) = opp then Some (h, Fin (depth - 10))
      else if isBoardFull (readBoard h br) then Some (h, Fin 0)
      else if isMaximizing then
        maxLoopH (\<lambda>h' br' a be. minimaxH n h' br' (depth + 1) False p opp a be)
          h br p (getAvailableMoves (readBoard h br)) alpha beta NegInf
      else
        minLoopH (\<lambda>h' br' a be. minimaxH n h' br' (depth + 1) True p opp a be)
          h br opp (getAvailableMoves (readBoard h br)) alpha beta PosInf)"

fun miniMaxLoopH :: "nat \<Rightarrow> heap \<Rightarrow> bref \<Rightarrow> jsval \<Rightarrow> jsval \<Rightarrow> move list \<Rightarrow> jsnum \<times> move option
    \<Rightarrow> (heap \<times> jsnum \<times> move option) option" where
  "miniMaxLoopH n h br p opp [] best = Some (h, best)"
| "miniMaxLoopH n h br p opp (m # ms) best =
     (case minimaxH n (setCellH (fst (cloneBoardH h br)) (snd (cloneBoardH h br)) m p)
             (snd (cloneBoardH h br)) 0 False p opp NegInf PosInf of
        None \<Rightarrow> None
      | Some (h', score) \<Rightarrow>
          miniMaxLoopH n h' br p opp ms (if fst best < score then (score, Some m) else best))"

definition getMiniMaxMoveH :: "heap \<Rightarrow> bref \<Rightarrow> jsval \<Rightarrow> jsval \<Rightarrow> heap \<times> (error + move option)" where
  "getMiniMaxMoveH h br p opp =
     (case miniMaxLoopH searchFuel h br p opp (getAvailableMoves (readBoard h br)) (NegInf, None) of
        None \<Rightarrow> (h, Inl StackExhausted)
      | Some (h', best) \<Rightarrow>
          (case snd best of
             Some m \<Rightarrow> (h', Inr (Some m))
           | None \<Rightarrow> (h', Inr (arrayGet (getAvailableMoves (readBoard h br)) 0))))"

fun findWinningMoveH :: "heap \<Rightarrow> bref \<Rightarrow> jsval \<Rightarrow> move list \<Rightarrow> heap \<times> move option" where
  "findWinningMoveH h br s [] = (h, None)"
| "findWinningMoveH h br s (m # ms) =
     (if checkWinner (readBoard (setCellH (fst (cloneBoardH h br)) (snd (cloneBoardH h br)) m s)
            (snd (cloneBoardH h br))) = s
      then (setCellH (fst (cloneBoardH h br)) (snd (cloneBoardH h br)) m s, Some m)
      else findWinningMoveH (setCellH (fst (cloneBoardH h br)) (snd (cloneBoardH h br)) m s) br s ms)"

definition getMediumMoveH :: "nat \<Rightarrow> heap \<Rightarrow> bref \<Rightarrow> jsval \<Rightarrow> jsval \<Rightarrow> move list \<Rightarrow> heap \<times> move option" where
  "getMediumMoveH u h br p opp availableMoves =
     (case findWinningMoveH h br p availableMoves of
        (h1, Some m) \<Rightarrow> (h1, Some m)
      | (h1, None) \<Rightarrow>
     (case findWinningMoveH h1 br opp availableMoves of
        (h2, Some m) \<Rightarrow> (h2, Some m)
      | (h2, None) \<Rightarrow>
     (case find (\<lambda>m. row m = 1 \<and> col m = 1) availableMoves of
        Some m \<Rightarrow> (h2, Some m)
      | None \<Rightarrow>
          (if length (filter isCorner availableMoves) > 0
           then (h2, arrayGet (filter isCorner availableMoves)
                  (randomIndex u (length (filter isCorner availableMoves))))
           else (h2, getRandomMove u availableMoves)))))"

definition getMoveH :: "difficulty \<Rightarrow> nat \<Rightarrow> heap \<Rightarrow> bref \<Rightarrow> jsval \<Rightarrow> jsval
    \<Rightarrow> heap \<times> (error + move option)" where
  "getMoveH d u h br p opp =
     (case validateBoard (readBoard h br) of
        Some e \<Rightarrow> (h, Inl e)
      | None \<Rightarrow>
     (case validateSymbols p opp of
        Some e \<Rightarrow> (h, Inl e)
      | None \<Rightarrow>
          (if length (getAvailableMoves (readBoard h br)) = 0 then (h, Inl NoAvailableMoves)
           else (case d of
                   Easy \<Rightarrow> (h, Inr (getRandomMove u (getAvailableMoves (readBoard h br))))
                 | Medium \<Rightarrow>
                     (case getMediumMoveH u h br p opp (getAvailableMoves (readBoard h br)) of
                        (h', r) \<Rightarrow> (h', Inr r))
                 | Hard \<Rightarrow> getMiniMaxMoveH h br p opp))))"

section \<open>Lines of the board\<close>

text \<open>
  The cell of the 3x3 board with flat index \<open>i\<close> is the one in row \<open>i div 3\<close> and
  column \<open>i mod 3\<close>; \<open>hasLine b s\<close> holds when one of the eight lines of
  \<open>WINNING_COMBINATIONS\<close> has its three cells equal to \<open>s\<close>.
\<close>

definition flatCell :: "board \<Rightarrow> nat \<Rightarrow> jsval" where
  "flatCell b i = cell b (i div 3) (i mod 3)"

definition lineOf :: "board \<Rightarrow> jsval \<Rightarrow> nat \<times> nat \<times> nat \<Rightarrow> bool" where
  "lineOf b s l = (case l of (i, j, k) \<Rightarrow> flatCell b i = s \<and> flatCell b j = s \<and> flatCell b k = s)"

definition hasLine :: "board \<Rightarrow> jsval \<Rightarrow> bool" where
  "hasLine b s = list_ex (lineOf b s) WINNING_COMBINATIONS"

text \<open>
  The eight lines are numbered in the order of \<open>WINNING_COMBINATIONS\<close>: the rows 0, 1, 2
  (lines 0 to 2), the columns 0, 1, 2 (lines 3 to 5), the diagonal (line 6) and the
  anti-diagonal (line 7).  \<open>fullLine b l\<close>: the line \<open>l\<close> holds three times the same
  non-empty symbol.
\<close>

definition fullLine :: "board \<Rightarrow> nat \<times> nat \<times> nat \<Rightarrow> bool" where
  "fullLine b l = (case l of (i, j, k) \<Rightarrow>
     truthy (flatCell b i) \<and> flatCell b i = flatCell b j \<and> flatCell b j = flatCell b k)"

text \<open>
  On the flat board of \<open>GameState\<close>, cell \<open>3 * r + c\<close> is the one in row \<open>r\<close> and column
  \<open>c\<close>.  \<open>flatLine bd s\<close>: some row, some column, the diagonal (cells 0, 4, 8) or the
  anti-diagonal (cells 2, 4, 6) has its three cells equal to \<open>s\<close>.
\<close>

definition flatLine :: "jsval list \<Rightarrow> jsval \<Rightarrow> bool" where
  "flatLine bd s =
     ((\<exists>r\<in>{0..<3}. \<forall>c\<in>{0..<3}. cellAt bd (3 * r + c) = s) \<or>
      (\<exists>c\<in>{0..<3}. \<forall>r\<in>{0..<3}. cellAt bd (3 * r + c) = s) \<or>
      (\<forall>i\<in>{0..<3}. cellAt bd (4 * i) = s) \<or>
      (\<forall>i\<in>{0..<3}. cellAt bd (2 * i + 2) = s))"

definition flatLineOf :: "jsval list \<Rightarrow> jsval \<Rightarrow> nat \<times> nat \<times> nat \<Rightarrow> bool" where
  "flatLineOf bd s l = (case l of (i, j, k) \<Rightarrow> cellAt bd i = s \<and> cellAt bd j = s \<and> cellAt bd k = s)"

section \<open>Auxiliary notions for the proofs\<close>

text \<open>
  The number of empty cells of a board is the measure on which the search terminates.
\<close>

definition emptyAt :: "board \<Rightarrow> nat \<Rightarrow> nat \<Rightarrow> nat" where
  "emptyAt b r c = (if isAvailable b r c then 1 else 0)"

definition numEmpty :: "board \<Rightarrow> nat" where
  "numEmpty b = (\<Sum>r\<leftarrow>[0, 1, 2]. \<Sum>c\<leftarrow>[0, 1, 2]. emptyAt b r c)"

text \<open>
  What a search with window \<open>(alpha, beta)\<close> promises about its result \<open>r\<close>, when the
  position has the value \<open>v\<close> without pruning: a result at or below \<open>alpha\<close> is an
  upper bound of \<open>v\<close>, a result at or above \<open>beta\<close> is a lower bound, and a result
  strictly inside the window is \<open>v\<close> itself.
\<close>

definition agrees :: "jsnum \<Rightarrow> jsnum \<Rightarrow> jsnum \<Rightarrow> jsnum \<Rightarrow> bool" where
  "agrees alpha beta v r =
     ((r \<le> alpha \<longrightarrow> v \<le> r) \<and> (beta \<le> r \<longrightarrow> r \<le> v) \<and> (alpha < r \<and> r < beta \<longrightarrow> r = v))"

text \<open>A returned score that is not negative: the position is not lost for the AI.\<close>

definition nonneg :: "jsnum option \<Rightarrow> bool" where
  "nonneg x = (case x of None \<Rightarrow> False | Some v \<Rightarrow> Fin 0 \<le> v)"

text \<open>
  The score \<open>_getMiniMaxMove\<close> gives to a candidate move, the score the search without
  pruning gives it, and the index \<open>3 * row + col\<close> of a move.
\<close>

definition candidateScore :: "board \<Rightarrow> jsval \<Rightarrow> jsval \<Rightarrow> move \<Rightarrow> jsnum option" where
  "candidateScore b p opp m = minimax searchFuel (setCell (cloneBoard b) m p) 0 False p opp NegInf PosInf"

definition bruteScore :: "board \<Rightarrow> jsval \<Rightarrow> jsval \<Rightarrow> move \<Rightarrow> jsnum option" where
  "bruteScore b p opp m = bruteMinimax searchFuel (setCell (cloneBoard b) m p) 0 False p opp"

definition moveIndex :: "move \<Rightarrow> nat" where
  "moveIndex m = row m * 3 + col m"


text \<open>
  Shorthands used when the search is evaluated on a board written out cell by cell: a
  cell that \<open>_getAvailableMoves\<close> takes for empty, and three cells that form a
  complete line.
\<close>

definition vacant :: "jsval \<Rightarrow> bool" where
  "vacant x = (\<not> truthy x \<or> x = Str [])"

definition line3 :: "jsval \<Rightarrow> jsval \<Rightarrow> jsval \<Rightarrow> bool" where
  "line3 x y z = (truthy x \<and> x = y \<and> y = z)"

section \<open>Games against the hard player\<close>

text \<open>
  A game starts on the empty board, with either side to move.  The AI, playing \<open>p\<close>,
  makes every one of its moves by \<open>getMove\<close> at difficulty hard (with any random
  source \<open>u\<close>) and the caller writes the symbol into the returned cell; the opponent,
  playing \<open>opp\<close>, takes any empty cell.  No move is made once \<open>_checkWinner\<close> reports
  a winner.  \<open>reachable p opp t b\<close>: the board \<open>b\<close> occurs in such a game, with the AI to
  move when \<open>t\<close> holds.
\<close>

definition emptyBoard3 :: board where
  "emptyBoard3 = [[Str [], Str [], Str []], [Str [], Str [], Str []], [Str [], Str [], Str []]]"

inductive reachable :: "jsval \<Rightarrow> jsval \<Rightarrow> bool \<Rightarrow> board \<Rightarrow> bool" for p opp where
  start: "reachable p opp first emptyBoard3"
| aiMove: "reachable p opp True b \<Longrightarrow> checkWinner b = Null \<Longrightarrow>
     getMove Hard u b p opp = Inr (Some m) \<Longrightarrow> reachable p opp False (setCell (cloneBoard b) m p)"
| oppMove: "reachable p opp False b \<Longrightarrow> checkWinner b = Null \<Longrightarrow>
     m \<in> set (getAvailableMoves b) \<Longrightarrow> reachable p opp True (setCell (cloneBoard b) m opp)"

text \<open>A board whose cells hold nothing but the empty string and the two symbols.\<close>

definition marksOnly :: "jsval \<Rightarrow> jsval \<Rightarrow> board \<Rightarrow> bool" where
  "marksOnly p opp b = list_all (list_all (\<lambda>x. x = Str [] \<or> x = p \<or> x = opp)) b"

text \<open>The invariant of such games: the unpruned value of the position is not negative.\<close>

definition notLost :: "jsval \<Rightarrow> jsval \<Rightarrow> bool \<Rightarrow> board \<Rightarrow> bool" where
  "notLost p opp t b = (validBoard b \<and> nonneg (bruteMinimax searchFuel b 0 t p opp))"

text \<open>
  A later store extends an earlier one when every array of the earlier one is still
  there, unchanged.  A run on the store simulates a run on values when it returns the
  same result in a store that extends the one it started from.
\<close>

definition extends :: "heap \<Rightarrow> heap \<Rightarrow> bool" where
  "extends h h' = (take (length h) h' = h)"

definition simulates :: "'r option \<Rightarrow> heap \<Rightarrow> (heap \<times> 'r) option \<Rightarrow> bool" where
  "simulates x h y = (case x of None \<Rightarrow> y = None | Some r \<Rightarrow> \<exists>h'. y = Some (h', r) \<and> extends h h')"

section \<open>Verified properties\<close>

subsection \<open>The win oracle\<close>

lemma hasLine_unfold:
  "hasLine b s \<longleftrightarrow>
     (cell b 0 0 = s \<and> cell b 0 1 = s \<and> cell b 0 2 = s) \<or>
     (cell b 1 0 = s \<and> cell b 1 1 = s \<and> cell b 1 2 = s) \<or>
     (cell b 2 0 = s \<and> cell b 2 1 = s \<and> cell b 2 2 = s) \<or>
     (cell b 0 0 = s \<and> cell b 1 0 = s \<and> cell b 2 0 = s) \<or>
     (cell b 0 1 = s \<and> cell b 1 1 = s \<and> cell b 2 1 = s) \<or>
     (cell b 0 2 = s \<and> cell b 1 2 = s \<and> cell b 2 2 = s) \<or>
     (cell b 0 0 = s \<and> cell b 1 1 = s \<and> cell b 2 2 = s) \<or>
     (cell b 0 2 = s \<and> cell b 1 1 = s \<and> cell b 2 0 = s)"
  by (simp add: hasLine_def WINNING_COMBINATIONS_def lineOf_def flatCell_def)

lemma checkWinner_unfold:
  "checkWinner b =
     (if rowLine b 0 then cell b 0 0
      else if rowLine b 1 then cell b 1 0
      else if rowLine b 2 then cell b 2 0
      else if colLine b 0 then cell b 0 0
      else if colLine b 1 then cell b 0 1
      else if colLine b 2 then cell b 0 2
      else if diagLine b then cell b 0 0
      else if antiLine b then cell b 0 2
      else Null)"
  by (simp add: checkWinner_def)

lemma rowLine_hasLine: "r < 3 \<Longrightarrow> rowLine b r \<Longrightarrow> hasLine b (cell b r 0) \<and> truthy (cell b r 0)"
proof -
  assume "r < 3" "rowLine b r"
  then consider "r = 0" | "r = 1" | "r = 2" by linarith
  then show ?thesis using \<open>rowLine b r\<close>
    by cases (auto simp: hasLine_unfold rowLine_def)
qed

lemma colLine_hasLine: "c < 3 \<Longrightarrow> colLine b c \<Longrightarrow> hasLine b (cell b 0 c) \<and> truthy (cell b 0 c)"
proof -
  assume "c < 3" "colLine b c"
  then consider "c = 0" | "c = 1" | "c = 2" by linarith
  then show ?thesis using \<open>colLine b c\<close>
    by cases (auto simp: hasLine_unfold colLine_def)
qed

lemma diagLine_hasLine: "diagLine b \<Longrightarrow> hasLine b (cell b 0 0) \<and> truthy (cell b 0 0)"
  by (auto simp: hasLine_unfold diagLine_def)

lemma antiLine_hasLine: "antiLine b \<Longrightarrow> hasLine b (cell b 0 2) \<and> truthy (cell b 0 2)"
  by (auto simp: hasLine_unfold antiLine_def)

lemma checkWinner_cases:
  "(checkWinner b = Null \<and> \<not> rowLine b 0 \<and> \<not> rowLine b 1 \<and> \<not> rowLine b 2
      \<and> \<not> colLine b 0 \<and> \<not> colLine b 1 \<and> \<not> colLine b 2 \<and> \<not> diagLine b \<and> \<not> antiLine b)
   \<or> (hasLine b (checkWinner b) \<and> truthy (checkWinner b))"
  unfolding checkWinner_unfold
  using rowLine_hasLine [of 0 b] rowLine_hasLine [of 1 b] rowLine_hasLine [of 2 b]
    colLine_hasLine [of 0 b] colLine_hasLine [of 1 b] colLine_hasLine [of 2 b]
    diagLine_hasLine [of b] antiLine_hasLine [of b]
  by simp

lemma hasLine_someLine:
  "truthy s \<Longrightarrow> hasLine b s \<Longrightarrow>
     rowLine b 0 \<or> rowLine b 1 \<or> rowLine b 2 \<or> colLine b 0 \<or> colLine b 1 \<or> colLine b 2
     \<or> diagLine b \<or> antiLine b"
  unfolding hasLine_unfold rowLine_def colLine_def diagLine_def antiLine_def
  by (elim disjE) simp_all

lemma checkWinner_sound: "truthy s \<Longrightarrow> checkWinner b = s \<Longrightarrow> hasLine b s"
  using checkWinner_cases [of b] by auto

lemma checkWinner_truthy_or_Null: "checkWinner b = Null \<or> truthy (checkWinner b)"
  using checkWinner_cases [of b] by auto

lemma checkWinner_hasLine: "hasLine b (checkWinner b) \<or> checkWinner b = Null"
  using checkWinner_cases [of b] by auto

lemma checkWinner_some: "truthy s \<Longrightarrow> hasLine b s \<Longrightarrow> truthy (checkWinner b)"
  using checkWinner_cases [of b] hasLine_someLine [of s b] by auto

lemma checkWin_iff: "snd (checkWin st) \<longleftrightarrow> list_ex (lineComplete (gsBoard st)) WINNING_COMBINATIONS"
proof (cases "find (lineComplete (gsBoard st)) WINNING_COMBINATIONS")
  case None
  then have "\<not> list_ex (lineComplete (gsBoard st)) WINNING_COMBINATIONS"
    by (auto simp: find_None_iff list_ex_iff)
  with None show ?thesis
    by (simp add: checkWin_def)
next
  case (Some l)
  then have "l \<in> set WINNING_COMBINATIONS \<and> lineComplete (gsBoard st) l"
    by (auto simp: find_Some_iff)
  with Some show ?thesis
    by (auto simp: checkWin_def list_ex_iff)
qed

lemma checkWinner_only:
  assumes "truthy s" "hasLine b s" "\<forall>t. truthy t \<and> t \<noteq> s \<longrightarrow> \<not> hasLine b t"
  shows "checkWinner b = s"
proof -
  from assms(1,2) have t: "truthy (checkWinner b)" by (rule checkWinner_some)
  then have "hasLine b (checkWinner b)" using checkWinner_hasLine [of b] by auto
  with assms(3) t show ?thesis by blast
qed

lemma fullLine_iff: "fullLine b l \<longleftrightarrow> (\<exists>t. truthy t \<and> lineOf b t l)"
  by (cases l rule: prod_cases3) (auto simp: fullLine_def lineOf_def)

lemma lineOf_fst: "lineOf b s l \<Longrightarrow> flatCell b (fst l) = s"
  by (cases l rule: prod_cases3) (simp add: lineOf_def)

lemma fullLine_lineOf: "fullLine b l \<Longrightarrow> lineOf b (flatCell b (fst l)) l"
  by (cases l rule: prod_cases3) (simp add: fullLine_def lineOf_def)

lemma fullLine_lit:
  "fullLine b (0, 1, 2) = rowLine b 0" "fullLine b (3, 4, 5) = rowLine b 1"
  "fullLine b (6, 7, 8) = rowLine b 2" "fullLine b (0, 3, 6) = colLine b 0"
  "fullLine b (1, 4, 7) = colLine b 1" "fullLine b (2, 5, 8) = colLine b 2"
  "fullLine b (0, 4, 8) = diagLine b" "fullLine b (2, 4, 6) = antiLine b"
  by (simp_all add: fullLine_def flatCell_def rowLine_def colLine_def diagLine_def antiLine_def)

lemma flatCell_lit:
  "flatCell b 0 = cell b 0 0" "flatCell b 3 = cell b 1 0" "flatCell b 6 = cell b 2 0"
  "flatCell b 1 = cell b 0 1" "flatCell b 2 = cell b 0 2"
  by (simp_all add: flatCell_def)

lemma find_Cons_case:
  "(case find P (x # xs) of None \<Rightarrow> d | Some l \<Rightarrow> f l) =
     (if P x then f x else (case find P xs of None \<Rightarrow> d | Some l \<Rightarrow> f l))"
  by simp

lemma checkWinner_find:
  "checkWinner b = (case find (fullLine b) WINNING_COMBINATIONS of
                      None \<Rightarrow> Null | Some l \<Rightarrow> flatCell b (fst l))"
  unfolding checkWinner_unfold WINNING_COMBINATIONS_def
  by (simp only: find_Cons_case find.simps(1) option.case fullLine_lit fst_conv flatCell_lit)

lemma checkWinner_first:
  assumes "truthy s"
  shows "checkWinner b = s \<longleftrightarrow>
     (\<exists>n<length WINNING_COMBINATIONS. lineOf b s (WINNING_COMBINATIONS ! n) \<and>
        (\<forall>m<n. \<forall>t. truthy t \<longrightarrow> \<not> lineOf b t (WINNING_COMBINATIONS ! m)))"
proof
  assume c: "checkWinner b = s"
  with assms obtain l where f: "find (fullLine b) WINNING_COMBINATIONS = Some l"
    unfolding checkWinner_find by (cases "find (fullLine b) WINNING_COMBINATIONS") auto
  with c have s: "flatCell b (fst l) = s" unfolding checkWinner_find by simp
  from f obtain n where n: "n < length WINNING_COMBINATIONS" "fullLine b (WINNING_COMBINATIONS ! n)"
    "l = WINNING_COMBINATIONS ! n" "\<forall>m<n. \<not> fullLine b (WINNING_COMBINATIONS ! m)"
    unfolding find_Some_iff by blast
  from fullLine_lineOf [OF n(2)] n(3) s have "lineOf b s (WINNING_COMBINATIONS ! n)" by simp
  with n(1,4) show "\<exists>n<length WINNING_COMBINATIONS. lineOf b s (WINNING_COMBINATIONS ! n) \<and>
        (\<forall>m<n. \<forall>t. truthy t \<longrightarrow> \<not> lineOf b t (WINNING_COMBINATIONS ! m))"
    unfolding fullLine_iff by blast
next
  assume "\<exists>n<length WINNING_COMBINATIONS. lineOf b s (WINNING_COMBINATIONS ! n) \<and>
        (\<forall>m<n. \<forall>t. truthy t \<longrightarrow> \<not> lineOf b t (WINNING_COMBINATIONS ! m))"
  then obtain n where n: "n < length WINNING_COMBINATIONS" "lineOf b s (WINNING_COMBINATIONS ! n)"
    "\<forall>m<n. \<forall>t. truthy t \<longrightarrow> \<not> lineOf b t (WINNING_COMBINATIONS ! m)" by blast
  from n(2) assms have "fullLine b (WINNING_COMBINATIONS ! n)" unfolding fullLine_iff by blast
  moreover from n(3) have "\<forall>m<n. \<not> fullLine b (WINNING_COMBINATIONS ! m)"
    unfolding fullLine_iff by blast
  ultimately have "find (fullLine b) WINNING_COMBINATIONS = Some (WINNING_COMBINATIONS ! n)"
    using n(1) unfolding find_Some_iff by blast
  with lineOf_fst [OF n(2)] show "checkWinner b = s" unfolding checkWinner_find by simp
qed

lemma flatLine_list: "flatLine bd s \<longleftrightarrow> list_ex (flatLineOf bd s) WINNING_COMBINATIONS"
proof -
  have set3: "{0..<3::nat} = {0, 1, 2}" by auto
  show ?thesis
    unfolding flatLine_def set3
    by (simp add: WINNING_COMBINATIONS_def flatLineOf_def numeral_2_eq_2 [symmetric])
qed

lemma lineComplete_ex: "lineComplete bd l \<longleftrightarrow> (\<exists>s. s \<noteq> Str [] \<and> flatLineOf bd s l)"
  by (cases l rule: prod_cases3) (auto simp: lineComplete_def flatLineOf_def EMPTY_CELL_def)

lemma lineComplete_flatLine:
  "list_ex (lineComplete bd) WINNING_COMBINATIONS \<longleftrightarrow> (\<exists>s. s \<noteq> Str [] \<and> flatLine bd s)"
  unfolding flatLine_list list_ex_iff lineComplete_ex by blast

text \<open>
  Claim C4, as amended.  For a 3x3 board and a non-empty symbol \<open>s\<close>: when
  \<open>_checkWinner\<close> reports \<open>s\<close>, one of the eight lines has its three cells equal to
  \<open>s\<close>; when some line is all \<open>s\<close> and no line is filled with another non-empty
  symbol, \<open>_checkWinner\<close> reports \<open>s\<close>; it reports no winner exactly when no
  line is filled with a non-empty symbol.  When several lines are filled, the lines
  are taken in the order rows, columns, diagonal, anti-diagonal: \<open>_checkWinner\<close>
  reports \<open>s\<close> exactly when \<open>s\<close> fills a line and no line before that one is filled with
  a non-empty symbol.  \<open>GameState.checkWin\<close> is true exactly when some row, column or
  diagonal of the flat board holds three times the same value other than \<open>''\<close>.
\<close>

theorem checkWinner_lines:
  assumes "validBoard b" and "truthy s"
  shows "(checkWinner b = s \<longrightarrow> hasLine b s) \<and>
         (hasLine b s \<and> (\<forall>t. truthy t \<and> t \<noteq> s \<longrightarrow> \<not> hasLine b t) \<longrightarrow> checkWinner b = s) \<and>
         (checkWinner b = Null \<longleftrightarrow> (\<forall>t. truthy t \<longrightarrow> \<not> hasLine b t)) \<and>
         (checkWinner b = s \<longleftrightarrow>
            (\<exists>n<length WINNING_COMBINATIONS. lineOf b s (WINNING_COMBINATIONS ! n) \<and>
               (\<forall>m<n. \<forall>t. truthy t \<longrightarrow> \<not> lineOf b t (WINNING_COMBINATIONS ! m)))) \<and>
         (snd (checkWin st) \<longleftrightarrow> (\<exists>x. x \<noteq> Str [] \<and> flatLine (gsBoard st) x))"
proof (intro conjI impI)
  assume "checkWinner b = s"
  with assms(2) show "hasLine b s" by (rule checkWinner_sound)
next
  assume h: "hasLine b s \<and> (\<forall>t. truthy t \<and> t \<noteq> s \<longrightarrow> \<not> hasLine b t)"
  with assms(2) show "checkWinner b = s" using checkWinner_only by blast
next
  show "checkWinner b = Null \<longleftrightarrow> (\<forall>t. truthy t \<longrightarrow> \<not> hasLine b t)"
  proof
    assume n: "checkWinner b = Null"
    show "\<forall>t. truthy t \<longrightarrow> \<not> hasLine b t"
    proof (intro allI impI notI)
      fix t assume "truthy t" "hasLine b t"
      then have "truthy (checkWinner b)" by (rule checkWinner_some)
      with n show False by simp
    qed
  next
    assume a: "\<forall>t. truthy t \<longrightarrow> \<not> hasLine b t"
    show "checkWinner b = Null"
      using checkWinner_truthy_or_Null [of b] checkWinner_hasLine [of b] a by blast
  qed
next
  show "checkWinner b = s \<longleftrightarrow>
          (\<exists>n<length WINNING_COMBINATIONS. lineOf b s (WINNING_COMBINATIONS ! n) \<and>
             (\<forall>m<n. \<forall>t. truthy t \<longrightarrow> \<not> lineOf b t (WINNING_COMBINATIONS ! m)))"
    using assms(2) by (rule checkWinner_first)
next
  show "snd (checkWin st) \<longleftrightarrow> (\<exists>x. x \<noteq> Str [] \<and> flatLine (gsBoard st) x)"
    unfolding checkWin_iff by (rule lineComplete_flatLine)
qed

theorem checkWinner_lines_witness:
  "validBoard [[Str ''X'', Str ''X'', Str ''X''], [Str ''O'', Str ''O'', Str ''O''], [Str [], Str [], Str []]] \<and>
   truthy (Str ''X'') \<and>
   lineOf [[Str ''X'', Str ''X'', Str ''X''], [Str ''O'', Str ''O'', Str ''O''], [Str [], Str [], Str []]]
     (Str ''X'') (WINNING_COMBINATIONS ! 0) \<and>
   checkWinner [[Str ''X'', Str ''X'', Str ''X''], [Str ''O'', Str ''O'', Str ''O''], [Str [], Str [], Str []]]
     = Str ''X'' \<and>
   hasLine [[Str ''X'', Str ''X'', Str ''X''], [Str ''O'', Str ''O'', Str ''O''], [Str [], Str [], Str []]]
     (Str ''X'')"
proof -
  let ?b = "[[Str ''X'', Str ''X'', Str ''X''], [Str ''O'', Str ''O'', Str ''O''], [Str [], Str [], Str []]]"
  have v: "validBoard ?b" by (simp add: validBoard_def)
  have t: "truthy (Str ''X'')" by simp
  have l: "lineOf ?b (Str ''X'') (WINNING_COMBINATIONS ! 0)" by code_simp
  have z: "(0::nat) < length WINNING_COMBINATIONS" by (simp add: WINNING_COMBINATIONS_def)
  have "\<exists>n<length WINNING_COMBINATIONS. lineOf ?b (Str ''X'') (WINNING_COMBINATIONS ! n) \<and>
          (\<forall>m<n. \<forall>t. truthy t \<longrightarrow> \<not> lineOf ?b t (WINNING_COMBINATIONS ! m))"
    using l z by blast
  with checkWinner_lines [OF v t] have c: "checkWinner ?b = Str ''X''" by blast
  with checkWinner_lines [OF v t] v t l show ?thesis by blast
qed

text \<open>
  The claim as stated fails on a board with two filled lines: row 1 is all \<open>O\<close>, yet
  \<open>_checkWinner\<close> reports \<open>X\<close>, the symbol of row 0, which it checks first.
\<close>

theorem checkWinner_two_lines_counterexample:
  "validBoard [[Str ''X'', Str ''X'', Str ''X''], [Str ''O'', Str ''O'', Str ''O''], [Str [], Str [], Str []]] \<and>
   truthy (Str ''O'') \<and>
   hasLine [[Str ''X'', Str ''X'', Str ''X''], [Str ''O'', Str ''O'', Str ''O''], [Str [], Str [], Str []]]
     (Str ''O'') \<and>
   checkWinner [[Str ''X'', Str ''X'', Str ''X''], [Str ''O'', Str ''O'', Str ''O''], [Str [], Str [], Str []]]
     \<noteq> Str ''O''"
  by code_simp

subsection \<open>Rejected moves of the game state\<close>

text \<open>
  Claim C10.  When the game is over, the position is not a pair of integers within
  0 to 2, or the target cell is not empty, \<open>makeMove\<close> throws and the state after the call is the state
  before it: board, current player, status, winner and move history are unchanged.
\<close>

theorem makeMove_invalid_unchanged:
  assumes "isGameOver s \<or> \<not> isValidPosition r c
           \<or> (\<exists>i. coordinatesToIndex r c = Some i \<and> \<not> isCellEmpty (cellAt (gsBoard s) i))"
  shows "fst (makeMove s r c) = s \<and> (\<exists>e. snd (makeMove s r c) = Inl e)"
proof (cases "validateMove s r c")
  case None
  with assms show ?thesis
    by (cases r; cases c) (auto simp: validateMove_def split: if_splits)
next
  case (Some e)
  then show ?thesis by (simp add: makeMove_def)
qed

theorem makeMove_invalid_unchanged_witness:
  "coordinatesToIndex (Whole 1) (Whole 1) = Some 4 \<and>
   \<not> isCellEmpty (cellAt (gsBoard (fst (makeMove (newGame False) (Whole 1) (Whole 1)))) 4) \<and>
   fst (makeMove (fst (makeMove (newGame False) (Whole 1) (Whole 1))) (Whole 1) (Whole 1))
     = fst (makeMove (newGame False) (Whole 1) (Whole 1)) \<and>
   (\<exists>e. snd (makeMove (fst (makeMove (newGame False) (Whole 1) (Whole 1))) (Whole 1) (Whole 1)) = Inl e)"
proof -
  have i: "coordinatesToIndex (Whole 1) (Whole 1) = Some 4" by simp
  have h: "\<not> isCellEmpty (cellAt (gsBoard (fst (makeMove (newGame False) (Whole 1) (Whole 1)))) 4)"
    by code_simp
  from i h have "\<exists>i. coordinatesToIndex (Whole 1) (Whole 1) = Some i \<and>
      \<not> isCellEmpty (cellAt (gsBoard (fst (makeMove (newGame False) (Whole 1) (Whole 1)))) i)"
    by blast
  with makeMove_invalid_unchanged [of "fst (makeMove (newGame False) (Whole 1) (Whole 1))" "Whole 1" "Whole 1"]
    i h show ?thesis by blast
qed

subsection \<open>Cells, moves and the number of empty cells\<close>

lemma cloneBoard_id [simp]: "cloneBoard b = b"
  by (simp add: cloneBoard_def)

lemma validBoard_nth: "validBoard b \<Longrightarrow> r < 3 \<Longrightarrow> length (b ! r) = 3"
  by (simp add: validBoard_def)

lemma validBoard_alt: "validBoard b \<longleftrightarrow> length b = 3 \<and> (\<forall>i<3. length (b ! i) = 3)"
  by (auto simp: validBoard_def all_set_conv_all_nth)

lemma validBoard_setCell: "validBoard b \<Longrightarrow> validBoard (setCell b m s)"
  by (auto simp: validBoard_alt setCell_def) (case_tac "row m = i"; simp)

lemma cell_setCell:
  "validBoard b \<Longrightarrow> r0 < 3 \<Longrightarrow> c0 < 3 \<Longrightarrow> r < 3 \<Longrightarrow> c < 3 \<Longrightarrow>
   cell (setCell b (Move r0 c0) s) r c = (if r = r0 \<and> c = c0 then s else cell b r c)"
  by (simp add: cell_def setCell_def validBoard_def nth_list_update)

lemma length_filter_sum: "length (filter P xs) = (\<Sum>x\<leftarrow>xs. if P x then 1 else 0)"
  by (induction xs) simp_all

lemma length_getAvailableMoves: "length (getAvailableMoves b) = numEmpty b"
  unfolding getAvailableMoves_def numEmpty_def emptyAt_def
  by (simp add: length_concat length_filter_sum del: filter.simps)

lemma less_3_cases: "(c::nat) < 3 \<longleftrightarrow> c = 0 \<or> c = 1 \<or> c = 2"
  by arith

lemma set_012: "set [0, 1, 2::nat] = {c. c < 3}"
  by (simp add: set_eq_iff less_3_cases)

lemma set_filter_012: "set (filter P [0, 1, 2::nat]) = {c. c < 3 \<and> P c}"
  unfolding set_filter set_012 by simp

lemma in_getAvailableMoves:
  "m \<in> set (getAvailableMoves b) \<longleftrightarrow> row m < 3 \<and> col m < 3 \<and> isAvailable b (row m) (col m)"
proof -
  have "set (getAvailableMoves b) = (\<Union>r\<in>{r. r < 3}. Move r ` {c. c < 3 \<and> isAvailable b r c})"
  proof -
    have "set (getAvailableMoves b) = (\<Union>r\<in>set [0, 1, 2]. Move r ` set (filter (isAvailable b r) [0, 1, 2]))"
      unfolding getAvailableMoves_def by (simp del: filter.simps)
    also have "set [0, 1, 2::nat] = {r. r < 3}" by (rule set_012)
    finally show ?thesis unfolding set_filter_012 .
  qed
  then show ?thesis by (cases m) auto
qed

lemma emptyAt_setCell:
  "validBoard b \<Longrightarrow> truthy s \<Longrightarrow> r0 < 3 \<Longrightarrow> c0 < 3 \<Longrightarrow> r < 3 \<Longrightarrow> c < 3 \<Longrightarrow>
   emptyAt (setCell b (Move r0 c0) s) r c = (if r = r0 \<and> c = c0 then 0 else emptyAt b r c)"
  by (cases s) (auto simp: emptyAt_def isAvailable_def cell_setCell)

lemma numEmpty_setCell:
  assumes "validBoard b" "truthy s" "m \<in> set (getAvailableMoves b)"
  shows "Suc (numEmpty (setCell b m s)) = numEmpty b"
proof (cases m)
  case (Move r0 c0)
  with assms(3) have r0: "r0 < 3" and c0: "c0 < 3" and a: "emptyAt b r0 c0 = 1"
    by (simp_all add: in_getAvailableMoves emptyAt_def)
  from r0 c0 consider "r0 = 0 \<and> c0 = 0" | "r0 = 0 \<and> c0 = 1" | "r0 = 0 \<and> c0 = 2"
    | "r0 = 1 \<and> c0 = 0" | "r0 = 1 \<and> c0 = 1" | "r0 = 1 \<and> c0 = 2"
    | "r0 = 2 \<and> c0 = 0" | "r0 = 2 \<and> c0 = 1" | "r0 = 2 \<and> c0 = 2"
    unfolding less_3_cases by blast
  then show ?thesis
    using a by cases (simp_all add: Move numEmpty_def emptyAt_setCell [OF assms(1,2)])
qed

subsection \<open>The order of scores\<close>

lemma le_PosInf [simp]: "x \<le> PosInf"
  by (cases x) simp_all

lemma NegInf_le [simp]: "NegInf \<le> x"
  by simp

lemma le_NegInf_iff [simp]: "x \<le> NegInf \<longleftrightarrow> x = NegInf"
  by (cases x) simp_all

lemma PosInf_le_iff [simp]: "PosInf \<le> x \<longleftrightarrow> x = PosInf"
  by (cases x) simp_all

lemma Fin_less_iff [simp]: "Fin a < Fin b \<longleftrightarrow> a < b"
  by (auto simp: less_jsnum_def)

lemma max_NegInf [simp]: "max NegInf x = x" "max x NegInf = x"
  by (simp_all add: max_def)

lemma min_PosInf [simp]: "min PosInf x = x" "min x PosInf = x"
  by (simp_all add: min_def)

lemma max_Fin [simp]: "max (Fin a) (Fin b) = Fin (max a b)"
  by (simp add: max_def)

lemma min_Fin [simp]: "min (Fin a) (Fin b) = Fin (min a b)"
  by (simp add: min_def)

lemma agrees_refl: "agrees alpha beta v v"
  by (simp add: agrees_def)

lemma agrees_full: "agrees NegInf PosInf v r \<Longrightarrow> r = v"
  by (cases r; cases v) (auto simp: agrees_def less_jsnum_def)

lemma maxAll_acc:
  "maxAll brec b p ms acc =
     (case maxAll brec b p ms NegInf of None \<Rightarrow> None | Some W \<Rightarrow> Some (max acc W))"
proof (induction ms arbitrary: acc)
  case Nil
  show ?case by simp
next
  case (Cons m ms)
  show ?case
  proof (cases "brec (setCell (cloneBoard b) m p)")
    case None
    then show ?thesis by simp
  next
    case (Some v)
    show ?thesis
      using Cons.IH [of "max acc v"] Cons.IH [of v] Some
      by (simp add: max.assoc split: option.splits)
  qed
qed

lemma minAll_acc:
  "minAll brec b p ms acc =
     (case minAll brec b p ms PosInf of None \<Rightarrow> None | Some W \<Rightarrow> Some (min acc W))"
proof (induction ms arbitrary: acc)
  case Nil
  show ?case by simp
next
  case (Cons m ms)
  show ?case
  proof (cases "brec (setCell (cloneBoard b) m p)")
    case None
    then show ?thesis by simp
  next
    case (Some v)
    show ?thesis
      using Cons.IH [of "min acc v"] Cons.IH [of v] Some
      by (simp add: min.assoc split: option.splits)
  qed
qed

lemma maxLoop_ge: "maxLoop rec b p ms alpha beta maxScore = Some R \<Longrightarrow> maxScore \<le> R"
proof (induction ms arbitrary: alpha maxScore)
  case Nil
  then show ?case by simp
next
  case (Cons m ms)
  then show ?case
    by (fastforce split: option.splits if_splits simp: max.coboundedI1)
qed

lemma minLoop_le: "minLoop rec b p ms alpha beta minScore = Some R \<Longrightarrow> R \<le> minScore"
proof (induction ms arbitrary: beta minScore)
  case Nil
  then show ?case by simp
next
  case (Cons m ms)
  then show ?case
    by (fastforce split: option.splits if_splits simp: min.coboundedI1)
qed

lemma agrees_max_cut:
  fixes alpha :: jsnum
  assumes "alpha < beta" "maxScore \<le> alpha" "agrees alpha beta v r" "beta \<le> max alpha r"
  shows "agrees alpha beta (max v W) (max maxScore r)"
proof -
  from assms(1,4) have r: "beta \<le> r" by (simp add: max_def split: if_splits)
  with assms(1,2) have m: "max maxScore r = r" by (auto simp: max_def)
  from r assms(3) have "r \<le> v" by (simp add: agrees_def)
  then have "r \<le> max v W" by (simp add: max.coboundedI1)
  with r assms(1) show ?thesis unfolding m agrees_def by auto
qed

lemma agrees_max_step:
  fixes alpha :: jsnum
  assumes ab: "alpha < beta" and ms: "maxScore \<le> alpha" and c: "agrees alpha beta v r"
    and nc: "\<not> beta \<le> max alpha r" and ih: "agrees (max alpha r) beta W R"
    and ge: "max maxScore r \<le> R"
  shows "agrees alpha beta (max v W) R"
proof -
  have rR: "r \<le> R" using ge by simp
  have rb: "r < beta" using nc by (auto simp: not_le)
  have vr: "v \<le> r" using c rb unfolding agrees_def by (metis linorder_not_less order_refl)
  show ?thesis
    unfolding agrees_def
  proof (intro conjI impI)
    assume "R \<le> alpha"
    then have "R \<le> max alpha r" by (simp add: max.coboundedI1)
    with ih have "W \<le> R" by (simp add: agrees_def)
    moreover have "v \<le> R" using vr rR by simp
    ultimately show "max v W \<le> R" by simp
  next
    assume "beta \<le> R"
    with ih have "R \<le> W" by (simp add: agrees_def)
    then show "R \<le> max v W" by (simp add: max.coboundedI2)
  next
    assume a: "alpha < R \<and> R < beta"
    show "R = max v W"
    proof (cases "R \<le> max alpha r")
      case True
      with a have "R \<le> r" by (simp add: max_def split: if_splits)
      with rR have "R = r" by simp
      with a c have "r = v" by (simp add: agrees_def)
      moreover from True ih have "W \<le> R" by (simp add: agrees_def)
      ultimately show ?thesis using \<open>R = r\<close> by (simp add: max_def)
    next
      case False
      then have "max alpha r < R" by (auto simp: not_le)
      with a ih have "R = W" by (simp add: agrees_def)
      moreover have "v \<le> R" using vr rR by simp
      ultimately show ?thesis by (simp add: max_def)
    qed
  qed
qed

lemma agrees_min_cut:
  fixes alpha :: jsnum
  assumes "alpha < beta" "beta \<le> minScore" "agrees alpha beta v r" "min beta r \<le> alpha"
  shows "agrees alpha beta (min v W) (min minScore r)"
proof -
  from assms(1,4) have r: "r \<le> alpha" by (simp add: min_def split: if_splits)
  with assms(1,2) have m: "min minScore r = r" by (auto simp: min_def)
  from r assms(3) have "v \<le> r" by (simp add: agrees_def)
  then have "min v W \<le> r" by (simp add: min.coboundedI1)
  with r assms(1) show ?thesis unfolding m agrees_def by auto
qed

lemma agrees_min_step:
  fixes alpha :: jsnum
  assumes ab: "alpha < beta" and ms: "beta \<le> minScore" and c: "agrees alpha beta v r"
    and nc: "\<not> min beta r \<le> alpha" and ih: "agrees alpha (min beta r) W R"
    and le: "R \<le> min minScore r"
  shows "agrees alpha beta (min v W) R"
proof -
  have rR: "R \<le> r" using le by simp
  have ra: "alpha < r" using nc by (auto simp: not_le)
  have vr: "r \<le> v" using c ra unfolding agrees_def by (metis linorder_not_less order_refl)
  show ?thesis
    unfolding agrees_def
  proof (intro conjI impI)
    assume "R \<le> alpha"
    with ih have "W \<le> R" by (simp add: agrees_def)
    then show "min v W \<le> R" by (simp add: min.coboundedI2)
  next
    assume "beta \<le> R"
    then have "min beta r \<le> R" by (simp add: min.coboundedI1)
    with ih have "R \<le> W" by (simp add: agrees_def)
    moreover have "R \<le> v" using vr rR by simp
    ultimately show "R \<le> min v W" by simp
  next
    assume a: "alpha < R \<and> R < beta"
    show "R = min v W"
    proof (cases "min beta r \<le> R")
      case True
      with a have "r \<le> R" by (simp add: min_def split: if_splits)
      with rR have "R = r" by simp
      with a c have "r = v" by (simp add: agrees_def)
      moreover from True ih have "R \<le> W" by (simp add: agrees_def)
      ultimately show ?thesis using \<open>R = r\<close> by (simp add: min_def)
    next
      case False
      then have "R < min beta r" by (auto simp: not_le)
      with a ih have "R = W" by (simp add: agrees_def)
      moreover have "R \<le> v" using vr rR by simp
      ultimately show ?thesis by (simp add: min_def)
    qed
  qed
qed

subsection \<open>Pruning does not change the value\<close>

lemma maxLoop_agrees:
  assumes "maxAll brec b p ms NegInf = Some W"
    and "\<And>m a be v. m \<in> set ms \<Longrightarrow> a < be \<Longrightarrow> brec (setCell (cloneBoard b) m p) = Some v
           \<Longrightarrow> \<exists>r. rec (setCell (cloneBoard b) m p) a be = Some r \<and> agrees a be v r"
    and "alpha < beta" and "maxScore \<le> alpha"
  shows "\<exists>R. maxLoop rec b p ms alpha beta maxScore = Some R \<and> agrees alpha beta W R"
  using assms
proof (induction ms arbitrary: alpha maxScore W)
  case Nil
  then show ?case by (auto simp: agrees_def)
next
  case (Cons m ms)
  let ?c = "setCell (cloneBoard b) m p"
  from Cons.prems(1) obtain v where v: "brec ?c = Some v"
    by (auto split: option.splits)
  with Cons.prems(1) have "maxAll brec b p ms v = Some W" by simp
  then obtain W' where W': "maxAll brec b p ms NegInf = Some W'" and W: "W = max v W'"
    using maxAll_acc [of brec b p ms v] by (auto split: option.splits)
  from Cons.prems(2) [of m alpha beta v] v Cons.prems(3)
  obtain r where r: "rec ?c alpha beta = Some r" and ar: "agrees alpha beta v r"
    by auto
  show ?case
  proof (cases "beta \<le> max alpha r")
    case True
    then have "maxLoop rec b p (m # ms) alpha beta maxScore = Some (max maxScore r)"
      using r by simp
    moreover have "agrees alpha beta W (max maxScore r)"
      unfolding W using Cons.prems(3,4) ar True by (rule agrees_max_cut)
    ultimately show ?thesis by blast
  next
    case False
    then have lt: "max alpha r < beta" by (auto simp: not_le)
    have le: "max maxScore r \<le> max alpha r"
      using Cons.prems(4) by (simp add: max.coboundedI1)
    have "\<exists>R. maxLoop rec b p ms (max alpha r) beta (max maxScore r) = Some R
             \<and> agrees (max alpha r) beta W' R"
      using Cons.IH [OF W' _ lt le] Cons.prems(2) by simp
    then obtain R where R: "maxLoop rec b p ms (max alpha r) beta (max maxScore r) = Some R"
      and aR: "agrees (max alpha r) beta W' R" by blast
    from R have ge: "max maxScore r \<le> R" by (rule maxLoop_ge)
    have "maxLoop rec b p (m # ms) alpha beta maxScore = Some R"
      using r False R by simp
    moreover have "agrees alpha beta W R"
      unfolding W using Cons.prems(3,4) ar False aR ge by (rule agrees_max_step)
    ultimately show ?thesis by blast
  qed
qed

lemma minLoop_agrees:
  assumes "minAll brec b p ms PosInf = Some W"
    and "\<And>m a be v. m \<in> set ms \<Longrightarrow> a < be \<Longrightarrow> brec (setCell (cloneBoard b) m p) = Some v
           \<Longrightarrow> \<exists>r. rec (setCell (cloneBoard b) m p) a be = Some r \<and> agrees a be v r"
    and "alpha < beta" and "beta \<le> minScore"
  shows "\<exists>R. minLoop rec b p ms alpha beta minScore = Some R \<and> agrees alpha beta W R"
  using assms
proof (induction ms arbitrary: beta minScore W)
  case Nil
  then show ?case by (auto simp: agrees_def)
next
  case (Cons m ms)
  let ?c = "setCell (cloneBoard b) m p"
  from Cons.prems(1) obtain v where v: "brec ?c = Some v"
    by (auto split: option.splits)
  with Cons.prems(1) have "minAll brec b p ms v = Some W" by simp
  then obtain W' where W': "minAll brec b p ms PosInf = Some W'" and W: "W = min v W'"
    using minAll_acc [of brec b p ms v] by (auto split: option.splits)
  from Cons.prems(2) [of m alpha beta v] v Cons.prems(3)
  obtain r where r: "rec ?c alpha beta = Some r" and ar: "agrees alpha beta v r"
    by auto
  show ?case
  proof (cases "min beta r \<le> alpha")
    case True
    then have "minLoop rec b p (m # ms) alpha beta minScore = Some (min minScore r)"
      using r by simp
    moreover have "agrees alpha beta W (min minScore r)"
      unfolding W using Cons.prems(3,4) ar True by (rule agrees_min_cut)
    ultimately show ?thesis by blast
  next
    case False
    then have lt: "alpha < min beta r" by (auto simp: not_le)
    have le: "min beta r \<le> min minScore r"
      using Cons.prems(4) by (simp add: min.coboundedI1)
    have "\<exists>R. minLoop rec b p ms alpha (min beta r) (min minScore r) = Some R
             \<and> agrees alpha (min beta r) W' R"
      using Cons.IH [OF W' _ lt le] Cons.prems(2) by simp
    then obtain R where R: "minLoop rec b p ms alpha (min beta r) (min minScore r) = Some R"
      and aR: "agrees alpha (min beta r) W' R" by blast
    from R have ge: "R \<le> min minScore r" by (rule minLoop_le)
    have "minLoop rec b p (m # ms) alpha beta minScore = Some R"
      using r False R by simp
    moreover have "agrees alpha beta W R"
      unfolding W using Cons.prems(3,4) ar False aR ge by (rule agrees_min_step)
    ultimately show ?thesis by blast
  qed
qed

lemma minimax_agrees:
  "bruteMinimax n b d t p opp = Some v \<Longrightarrow> alpha < beta \<Longrightarrow>
   \<exists>r. minimax n b d t p opp alpha beta = Some r \<and> agrees alpha beta v r"
proof (induction n arbitrary: b d t alpha beta v)
  case 0
  then show ?case by simp
next
  case (Suc n)
  consider (leaf) "checkWinner b = p \<or> checkWinner b = opp \<or> isBoardFull b"
    | (mx) "checkWinner b \<noteq> p" "checkWinner b \<noteq> opp" "\<not> isBoardFull b" "t"
    | (mn) "checkWinner b \<noteq> p" "checkWinner b \<noteq> opp" "\<not> isBoardFull b" "\<not> t"
    by blast
  then show ?case
  proof cases
    case leaf
    then have "minimax (Suc n) b d t p opp alpha beta = bruteMinimax (Suc n) b d t p opp"
      by auto
    with Suc.prems(1) show ?thesis by (simp add: agrees_refl)
  next
    case mx
    with Suc.prems(1) have
      "maxAll (\<lambda>b'. bruteMinimax n b' (d + 1) False p opp) b p (getAvailableMoves b) NegInf = Some v"
      by simp
    from maxLoop_agrees [where rec = "\<lambda>b' a be. minimax n b' (d + 1) False p opp a be",
        OF this _ Suc.prems(2), of NegInf] Suc.IH
    have "\<exists>R. maxLoop (\<lambda>b' a be. minimax n b' (d + 1) False p opp a be) b p
              (getAvailableMoves b) alpha beta NegInf = Some R \<and> agrees alpha beta v R"
      by simp
    with mx show ?thesis by simp
  next
    case mn
    with Suc.prems(1) have
      "minAll (\<lambda>b'. bruteMinimax n b' (d + 1) True p opp) b opp (getAvailableMoves b) PosInf = Some v"
      by simp
    from minLoop_agrees [where rec = "\<lambda>b' a be. minimax n b' (d + 1) True p opp a be",
        OF this _ Suc.prems(2), of PosInf] Suc.IH
    have "\<exists>R. minLoop (\<lambda>b' a be. minimax n b' (d + 1) True p opp a be) b opp
              (getAvailableMoves b) alpha beta PosInf = Some R \<and> agrees alpha beta v R"
      by simp
    with mn show ?thesis by simp
  qed
qed

lemma minimax_full_window:
  "bruteMinimax n b d t p opp = Some v \<Longrightarrow> minimax n b d t p opp NegInf PosInf = Some v"
proof -
  assume a: "bruteMinimax n b d t p opp = Some v"
  have "NegInf < PosInf" by (simp add: less_jsnum_def)
  from minimax_agrees [OF a this] show ?thesis
    using agrees_full by blast
qed

subsection \<open>The search returns\<close>

lemma isBoardFull_numEmpty: "isBoardFull b \<longleftrightarrow> numEmpty b = 0"
  by (simp add: isBoardFull_def length_getAvailableMoves)

lemma maxAll_Fin:
  "(\<And>m. m \<in> set ms \<Longrightarrow> \<exists>k. brec (setCell (cloneBoard b) m p) = Some (Fin k)) \<Longrightarrow>
   \<exists>k. maxAll brec b p ms (Fin a) = Some (Fin k)"
proof (induction ms arbitrary: a)
  case Nil
  show ?case by simp
next
  case (Cons m ms)
  from Cons.prems [of m] obtain k where "brec (setCell (cloneBoard b) m p) = Some (Fin k)" by auto
  moreover have "\<exists>k'. maxAll brec b p ms (Fin (max a k)) = Some (Fin k')"
    using Cons.IH Cons.prems by simp
  ultimately show ?case by simp
qed

lemma maxAll_total:
  assumes "\<And>m. m \<in> set ms \<Longrightarrow> \<exists>k. brec (setCell (cloneBoard b) m p) = Some (Fin k)"
    and "ms \<noteq> []"
  shows "\<exists>k. maxAll brec b p ms NegInf = Some (Fin k)"
proof (cases ms)
  case Nil
  with assms(2) show ?thesis by simp
next
  case (Cons m ms')
  from assms(1) [of m] Cons obtain k where "brec (setCell (cloneBoard b) m p) = Some (Fin k)" by auto
  moreover have "\<exists>k'. maxAll brec b p ms' (Fin k) = Some (Fin k')"
    using maxAll_Fin [of ms' brec b p k] assms(1) Cons by simp
  ultimately show ?thesis using Cons by simp
qed

lemma minAll_Fin:
  "(\<And>m. m \<in> set ms \<Longrightarrow> \<exists>k. brec (setCell (cloneBoard b) m p) = Some (Fin k)) \<Longrightarrow>
   \<exists>k. minAll brec b p ms (Fin a) = Some (Fin k)"
proof (induction ms arbitrary: a)
  case Nil
  show ?case by simp
next
  case (Cons m ms)
  from Cons.prems [of m] obtain k where "brec (setCell (cloneBoard b) m p) = Some (Fin k)" by auto
  moreover have "\<exists>k'. minAll brec b p ms (Fin (min a k)) = Some (Fin k')"
    using Cons.IH Cons.prems by simp
  ultimately show ?case by simp
qed

lemma minAll_total:
  assumes "\<And>m. m \<in> set ms \<Longrightarrow> \<exists>k. brec (setCell (cloneBoard b) m p) = Some (Fin k)"
    and "ms \<noteq> []"
  shows "\<exists>k. minAll brec b p ms PosInf = Some (Fin k)"
proof (cases ms)
  case Nil
  with assms(2) show ?thesis by simp
next
  case (Cons m ms')
  from assms(1) [of m] Cons obtain k where "brec (setCell (cloneBoard b) m p) = Some (Fin k)" by auto
  moreover have "\<exists>k'. minAll brec b p ms' (Fin k) = Some (Fin k')"
    using minAll_Fin [of ms' brec b p k] assms(1) Cons by simp
  ultimately show ?thesis using Cons by simp
qed

lemma moves_nonempty: "\<not> isBoardFull b \<Longrightarrow> getAvailableMoves b \<noteq> []"
  by (simp add: isBoardFull_def)

lemma bruteMinimax_total:
  "validBoard b \<Longrightarrow> truthy p \<Longrightarrow> truthy opp \<Longrightarrow> numEmpty b < n \<Longrightarrow>
   \<exists>k. bruteMinimax n b d t p opp = Some (Fin k)"
proof (induction n arbitrary: b d t)
  case 0
  then show ?case by simp
next
  case (Suc n)
  have child: "\<exists>k. bruteMinimax n (setCell (cloneBoard b) m s) d' t' p opp = Some (Fin k)"
    if "m \<in> set (getAvailableMoves b)" "truthy s" for m s d' t'
  proof -
    have "Suc (numEmpty (setCell (cloneBoard b) m s)) = numEmpty b"
      using Suc.prems(1) that by (simp add: numEmpty_setCell)
    with Suc.prems(4) have "numEmpty (setCell (cloneBoard b) m s) < n" by simp
    moreover have "validBoard (setCell (cloneBoard b) m s)"
      using Suc.prems(1) by (simp add: validBoard_setCell)
    ultimately show ?thesis using Suc.IH Suc.prems(2,3) by blast
  qed
  consider (leaf) "checkWinner b = p \<or> checkWinner b = opp \<or> isBoardFull b"
    | (maxn) "checkWinner b \<noteq> p" "checkWinner b \<noteq> opp" "\<not> isBoardFull b" "t"
    | (minn) "checkWinner b \<noteq> p" "checkWinner b \<noteq> opp" "\<not> isBoardFull b" "\<not> t"
    by blast
  then show ?case
  proof cases
    case leaf
    then show ?thesis by auto
  next
    case maxn
    have "\<exists>k. maxAll (\<lambda>b'. bruteMinimax n b' (d + 1) False p opp) b p (getAvailableMoves b) NegInf
            = Some (Fin k)"
      using child [OF _ Suc.prems(2)] maxn(3) by (intro maxAll_total moves_nonempty) auto
    with maxn show ?thesis by simp
  next
    case minn
    have "\<exists>k. minAll (\<lambda>b'. bruteMinimax n b' (d + 1) True p opp) b opp (getAvailableMoves b) PosInf
            = Some (Fin k)"
      using child [OF _ Suc.prems(3)] minn(3) by (intro minAll_total moves_nonempty) auto
    with minn show ?thesis by simp
  qed
qed

lemma maxAll_nonneg:
  "maxAll brec b p ms acc = Some W \<Longrightarrow>
   (Fin 0 \<le> W \<longleftrightarrow> Fin 0 \<le> acc \<or> (\<exists>m\<in>set ms. nonneg (brec (setCell (cloneBoard b) m p))))"
proof (induction ms arbitrary: acc)
  case Nil
  then show ?case by simp
next
  case (Cons m ms)
  from Cons.prems obtain v where v: "brec (setCell (cloneBoard b) m p) = Some v"
    and r: "maxAll brec b p ms (max acc v) = Some W"
    by (auto split: option.splits)
  from Cons.IH [OF r] v show ?case
    by (auto simp: nonneg_def le_max_iff_disj)
qed

lemma minAll_nonneg:
  "minAll brec b p ms acc = Some W \<Longrightarrow>
   (Fin 0 \<le> W \<longleftrightarrow> Fin 0 \<le> acc \<and> (\<forall>m\<in>set ms. nonneg (brec (setCell (cloneBoard b) m p))))"
proof (induction ms arbitrary: acc)
  case Nil
  then show ?case by simp
next
  case (Cons m ms)
  from Cons.prems obtain v where v: "brec (setCell (cloneBoard b) m p) = Some v"
    and r: "minAll brec b p ms (min acc v) = Some W"
    by (auto split: option.splits)
  from Cons.IH [OF r] v show ?case
    by (auto simp: nonneg_def)
qed

subsection \<open>The loop over the candidates\<close>

lemma emptyAt_le_1: "emptyAt b r c \<le> 1"
  by (simp add: emptyAt_def)

lemma numEmpty_le_9: "numEmpty b \<le> 9"
  using emptyAt_le_1 [of b 0 0] emptyAt_le_1 [of b 0 1] emptyAt_le_1 [of b 0 2]
    emptyAt_le_1 [of b 1 0] emptyAt_le_1 [of b 1 1] emptyAt_le_1 [of b 1 2]
    emptyAt_le_1 [of b 2 0] emptyAt_le_1 [of b 2 1] emptyAt_le_1 [of b 2 2]
  by (simp add: numEmpty_def)

lemma child_numEmpty:
  "validBoard b \<Longrightarrow> truthy s \<Longrightarrow> m \<in> set (getAvailableMoves b) \<Longrightarrow>
   numEmpty (setCell b m s) < 9 \<and> validBoard (setCell b m s)"
  using numEmpty_setCell [of b s m] numEmpty_le_9 [of b] validBoard_setCell [of b m s]
  by simp

lemma bruteScore_total:
  assumes "validBoard b" "truthy p" "truthy opp" "m \<in> set (getAvailableMoves b)"
  shows "\<exists>k. bruteScore b p opp m = Some (Fin k)"
proof -
  have "numEmpty (setCell b m p) < searchFuel" "validBoard (setCell b m p)"
    using child_numEmpty [OF assms(1,2,4)] by (simp_all add: searchFuel_def)
  then show ?thesis
    unfolding bruteScore_def using bruteMinimax_total [OF _ assms(2,3)] by simp
qed

lemma candidateScore_brute:
  assumes "validBoard b" "truthy p" "truthy opp" "m \<in> set (getAvailableMoves b)"
  shows "candidateScore b p opp m = bruteScore b p opp m"
proof -
  from bruteScore_total [OF assms] obtain k where "bruteScore b p opp m = Some (Fin k)" by blast
  then show ?thesis
    unfolding bruteScore_def candidateScore_def by (simp add: minimax_full_window)
qed

lemma miniMaxLoop_bruteLoop:
  "(\<And>m. m \<in> set ms \<Longrightarrow> candidateScore b p opp m = bruteScore b p opp m) \<Longrightarrow>
   miniMaxLoop searchFuel b p opp ms best = bruteLoop searchFuel b p opp ms best"
proof (induction ms arbitrary: best)
  case Nil
  show ?case by simp
next
  case (Cons m ms)
  have "minimax searchFuel (setCell (cloneBoard b) m p) 0 False p opp NegInf PosInf
        = bruteMinimax searchFuel (setCell (cloneBoard b) m p) 0 False p opp"
    using Cons.prems [of m] by (simp add: candidateScore_def bruteScore_def)
  moreover have "\<And>best'. miniMaxLoop searchFuel b p opp ms best' = bruteLoop searchFuel b p opp ms best'"
    using Cons.IH Cons.prems by simp
  ultimately show ?case by (simp split: option.splits)
qed

lemma bruteLoop_spec:
  assumes "\<And>m. m \<in> set ms \<Longrightarrow> \<exists>s. bruteScore b p opp m = Some s"
  shows "\<exists>s mv. bruteLoop searchFuel b p opp ms (bs, bm) = Some (s, mv) \<and> bs \<le> s \<and>
           (\<forall>m\<in>set ms. \<exists>s'. bruteScore b p opp m = Some s' \<and> s' \<le> s) \<and>
           ((s = bs \<and> mv = bm) \<or>
            (bs < s \<and> (\<exists>pre m post. ms = pre @ m # post \<and> mv = Some m \<and>
                 bruteScore b p opp m = Some s \<and>
                 (\<forall>m'\<in>set pre. \<exists>s'. bruteScore b p opp m' = Some s' \<and> s' < s))))"
  using assms
proof (induction ms arbitrary: bs bm)
  case Nil
  show ?case by simp
next
  case (Cons m ms)
  from Cons.prems [of m] obtain v where v: "bruteScore b p opp m = Some v" by auto
  then have v': "bruteMinimax searchFuel (setCell (cloneBoard b) m p) 0 False p opp = Some v"
    by (simp add: bruteScore_def)
  have rest: "\<And>m. m \<in> set ms \<Longrightarrow> \<exists>s. bruteScore b p opp m = Some s"
    using Cons.prems by simp
  show ?case
  proof (cases "bs < v")
    case True
    from Cons.IH [OF rest, of v "Some m"] obtain s mv where
      r: "bruteLoop searchFuel b p opp ms (v, Some m) = Some (s, mv)" and le: "v \<le> s"
      and all: "\<forall>m\<in>set ms. \<exists>s'. bruteScore b p opp m = Some s' \<and> s' \<le> s"
      and alt: "(s = v \<and> mv = Some m) \<or>
            (v < s \<and> (\<exists>pre m' post. ms = pre @ m' # post \<and> mv = Some m' \<and>
                 bruteScore b p opp m' = Some s \<and>
                 (\<forall>m''\<in>set pre. \<exists>s'. bruteScore b p opp m'' = Some s' \<and> s' < s)))"
      by blast
    have res: "bruteLoop searchFuel b p opp (m # ms) (bs, bm) = Some (s, mv)"
      using v' True r by simp
    have lt: "bs < s" using True le by simp
    from alt have "\<exists>pre m' post. m # ms = pre @ m' # post \<and> mv = Some m' \<and>
                 bruteScore b p opp m' = Some s \<and>
                 (\<forall>m''\<in>set pre. \<exists>s'. bruteScore b p opp m'' = Some s' \<and> s' < s)"
    proof
      assume "s = v \<and> mv = Some m"
      then have "m # ms = [] @ m # ms \<and> mv = Some m \<and> bruteScore b p opp m = Some s \<and>
                 (\<forall>m''\<in>set []. \<exists>s'. bruteScore b p opp m'' = Some s' \<and> s' < s)"
        using v by simp
      then show ?thesis by blast
    next
      assume "v < s \<and> (\<exists>pre m' post. ms = pre @ m' # post \<and> mv = Some m' \<and>
                 bruteScore b p opp m' = Some s \<and>
                 (\<forall>m''\<in>set pre. \<exists>s'. bruteScore b p opp m'' = Some s' \<and> s' < s))"
      then obtain pre m' post where "v < s" "ms = pre @ m' # post" "mv = Some m'"
        "bruteScore b p opp m' = Some s"
        "\<forall>m''\<in>set pre. \<exists>s'. bruteScore b p opp m'' = Some s' \<and> s' < s" by blast
      then have "m # ms = (m # pre) @ m' # post \<and> mv = Some m' \<and>
                 bruteScore b p opp m' = Some s \<and>
                 (\<forall>m''\<in>set (m # pre). \<exists>s'. bruteScore b p opp m'' = Some s' \<and> s' < s)"
        using v by simp
      then show ?thesis by blast
    qed
    with res lt le all v show ?thesis
      by (intro exI [of _ s] exI [of _ mv]) auto
  next
    case False
    then have vle: "v \<le> bs" by simp
    from Cons.IH [OF rest, of bs bm] obtain s mv where
      r: "bruteLoop searchFuel b p opp ms (bs, bm) = Some (s, mv)" and le: "bs \<le> s"
      and all: "\<forall>m\<in>set ms. \<exists>s'. bruteScore b p opp m = Some s' \<and> s' \<le> s"
      and alt: "(s = bs \<and> mv = bm) \<or>
            (bs < s \<and> (\<exists>pre m' post. ms = pre @ m' # post \<and> mv = Some m' \<and>
                 bruteScore b p opp m' = Some s \<and>
                 (\<forall>m''\<in>set pre. \<exists>s'. bruteScore b p opp m'' = Some s' \<and> s' < s)))"
      by blast
    have res: "bruteLoop searchFuel b p opp (m # ms) (bs, bm) = Some (s, mv)"
      using v' False r by simp
    from alt have "(s = bs \<and> mv = bm) \<or>
            (bs < s \<and> (\<exists>pre m' post. m # ms = pre @ m' # post \<and> mv = Some m' \<and>
                 bruteScore b p opp m' = Some s \<and>
                 (\<forall>m''\<in>set pre. \<exists>s'. bruteScore b p opp m'' = Some s' \<and> s' < s)))"
    proof
      assume "s = bs \<and> mv = bm"
      then show ?thesis by simp
    next
      assume "bs < s \<and> (\<exists>pre m' post. ms = pre @ m' # post \<and> mv = Some m' \<and>
                 bruteScore b p opp m' = Some s \<and>
                 (\<forall>m''\<in>set pre. \<exists>s'. bruteScore b p opp m'' = Some s' \<and> s' < s))"
      then obtain pre m' post where "bs < s" "ms = pre @ m' # post" "mv = Some m'"
        "bruteScore b p opp m' = Some s"
        "\<forall>m''\<in>set pre. \<exists>s'. bruteScore b p opp m'' = Some s' \<and> s' < s" by blast
      then have "m # ms = (m # pre) @ m' # post \<and> mv = Some m' \<and>
                 bruteScore b p opp m' = Some s \<and>
                 (\<forall>m''\<in>set (m # pre). \<exists>s'. bruteScore b p opp m'' = Some s' \<and> s' < s)"
        using v vle by auto
      with \<open>bs < s\<close> show ?thesis by blast
    qed
    with res le all v vle show ?thesis
      by (intro exI [of _ s] exI [of _ mv]) auto
  qed
qed

lemma NegInf_less_Fin [simp]: "NegInf < Fin k"
  by (simp add: less_jsnum_def)

lemma hard_best:
  assumes v: "validBoard b" and p: "truthy p" and o: "truthy opp" and nf: "\<not> isBoardFull b"
  shows "\<exists>s pre m post. getAvailableMoves b = pre @ m # post \<and>
           bruteLoop searchFuel b p opp (getAvailableMoves b) (NegInf, None) = Some (s, Some m) \<and>
           bruteScore b p opp m = Some s \<and>
           (\<forall>m'\<in>set (getAvailableMoves b). \<exists>s'. bruteScore b p opp m' = Some s' \<and> s' \<le> s) \<and>
           (\<forall>m'\<in>set pre. \<exists>s'. bruteScore b p opp m' = Some s' \<and> s' < s)"
proof -
  let ?ms = "getAvailableMoves b"
  have tot: "\<And>m. m \<in> set ?ms \<Longrightarrow> \<exists>s. bruteScore b p opp m = Some s"
    using bruteScore_total [OF v p o] by blast
  from bruteLoop_spec [of ?ms b p opp NegInf None, OF tot] obtain s mv where
    r: "bruteLoop searchFuel b p opp ?ms (NegInf, None) = Some (s, mv)"
    and all: "\<forall>m\<in>set ?ms. \<exists>s'. bruteScore b p opp m = Some s' \<and> s' \<le> s"
    and alt: "(s = NegInf \<and> mv = None) \<or>
            (NegInf < s \<and> (\<exists>pre m post. ?ms = pre @ m # post \<and> mv = Some m \<and>
                 bruteScore b p opp m = Some s \<and>
                 (\<forall>m'\<in>set pre. \<exists>s'. bruteScore b p opp m' = Some s' \<and> s' < s)))"
    by blast
  from nf obtain m0 where m0: "m0 \<in> set ?ms"
    using moves_nonempty [of b] by (cases ?ms) auto
  from bruteScore_total [OF v p o m0] obtain k where "bruteScore b p opp m0 = Some (Fin k)" by blast
  with all m0 have "Fin k \<le> s" by fastforce
  then have "s \<noteq> NegInf" by auto
  with alt obtain pre m post where "?ms = pre @ m # post" "mv = Some m"
    "bruteScore b p opp m = Some s"
    "\<forall>m'\<in>set pre. \<exists>s'. bruteScore b p opp m' = Some s' \<and> s' < s"
    by blast
  with r all show ?thesis by blast
qed

lemma loops_equal:
  assumes v: "validBoard b" and p: "truthy p" and o: "truthy opp"
  shows "miniMaxLoop searchFuel b p opp (getAvailableMoves b) best
         = bruteLoop searchFuel b p opp (getAvailableMoves b) best"
  using candidateScore_brute [OF v p o] by (rule miniMaxLoop_bruteLoop)

lemma getMiniMaxMove_bruteMove:
  assumes v: "validBoard b" and p: "truthy p" and o: "truthy opp"
  shows "getMiniMaxMove b p opp = bruteMove b p opp"
  by (simp add: getMiniMaxMove_def bruteMove_def loops_equal [OF v p o])

lemma getMove_Hard:
  assumes v: "validBoard b" and p: "truthy p" and o: "truthy opp" and ne: "p \<noteq> opp"
    and nf: "\<not> isBoardFull b"
  shows "getMove Hard u b p opp = getMiniMaxMove b p opp"
proof -
  have "validateBoard b = None"
    using v by (auto simp: validateBoard_def validBoard_def list_ex_iff)
  moreover have "validateSymbols p opp = None"
    using p o ne by (simp add: validateSymbols_def)
  ultimately show ?thesis
    using nf by (simp add: getMove_def isBoardFull_def)
qed

lemma hard_move:
  assumes v: "validBoard b" and p: "truthy p" and o: "truthy opp" and nf: "\<not> isBoardFull b"
  shows "\<exists>s pre m post. getAvailableMoves b = pre @ m # post \<and>
           getMiniMaxMove b p opp = Inr (Some m) \<and>
           candidateScore b p opp m = Some s \<and>
           (\<forall>m'\<in>set (getAvailableMoves b). \<exists>s'. candidateScore b p opp m' = Some s' \<and> s' \<le> s) \<and>
           (\<forall>m'\<in>set pre. \<exists>s'. candidateScore b p opp m' = Some s' \<and> s' < s)"
proof -
  from hard_best [OF v p o nf] obtain s pre m post where
    ms: "getAvailableMoves b = pre @ m # post"
    and r: "bruteLoop searchFuel b p opp (getAvailableMoves b) (NegInf, None) = Some (s, Some m)"
    and sm: "bruteScore b p opp m = Some s"
    and all: "\<forall>m'\<in>set (getAvailableMoves b). \<exists>s'. bruteScore b p opp m' = Some s' \<and> s' \<le> s"
    and pre: "\<forall>m'\<in>set pre. \<exists>s'. bruteScore b p opp m' = Some s' \<and> s' < s"
    by blast
  have eq: "\<And>m'. m' \<in> set (getAvailableMoves b) \<Longrightarrow> candidateScore b p opp m' = bruteScore b p opp m'"
    using candidateScore_brute [OF v p o] by blast
  have "getMiniMaxMove b p opp = Inr (Some m)"
    using r by (simp add: getMiniMaxMove_bruteMove [OF v p o] bruteMove_def)
  moreover have "candidateScore b p opp m = Some s"
    using eq [of m] ms sm by simp
  moreover have "\<forall>m'\<in>set (getAvailableMoves b). \<exists>s'. candidateScore b p opp m' = Some s' \<and> s' \<le> s"
    using all eq by simp
  moreover have "\<forall>m'\<in>set pre. \<exists>s'. candidateScore b p opp m' = Some s' \<and> s' < s"
    using pre eq ms by simp
  ultimately show ?thesis using ms by blast
qed

lemma sorted_moves: "sorted_wrt (\<lambda>x y. moveIndex x < moveIndex y) (getAvailableMoves b)"
proof -
  have row: "\<And>r. sorted_wrt (\<lambda>x y. moveIndex x < moveIndex y)
                 (map (Move r) (filter (isAvailable b r) [0, 1, 2]))"
  proof -
    fix r
    have "sorted_wrt (\<lambda>x y. moveIndex (Move r x) < moveIndex (Move r y)) [0, 1, 2]"
      by (simp add: moveIndex_def)
    then have "sorted_wrt (\<lambda>x y. moveIndex (Move r x) < moveIndex (Move r y))
                 (filter (isAvailable b r) [0, 1, 2])"
      by (rule sorted_wrt_filter)
    then show "sorted_wrt (\<lambda>x y. moveIndex x < moveIndex y)
                 (map (Move r) (filter (isAvailable b r) [0, 1, 2]))"
      by (simp add: sorted_wrt_map del: filter.simps)
  qed
  have cross: "\<And>r r' x y. r < r' \<Longrightarrow> x \<in> set (map (Move r) (filter (isAvailable b r) [0, 1, 2]))
      \<Longrightarrow> y \<in> set (map (Move r') (filter (isAvailable b r') [0, 1, 2]))
      \<Longrightarrow> moveIndex x < moveIndex y"
    unfolding set_map set_filter_012 by (auto simp: moveIndex_def)
  show ?thesis
    unfolding getAvailableMoves_def
    using row [of 0] row [of 1] row [of 2] cross [of 0 1] cross [of 0 2] cross [of 1 2]
    by (simp add: sorted_wrt_append del: filter.simps set_map) blast
qed

lemma earlier_in_prefix:
  assumes "getAvailableMoves b = pre @ m # post" "m' \<in> set (getAvailableMoves b)"
    "moveIndex m' < moveIndex m"
  shows "m' \<in> set pre"
proof -
  have s: "sorted_wrt (\<lambda>x y. moveIndex x < moveIndex y) (pre @ m # post)"
    using sorted_moves [of b] assms(1) by simp
  then have "\<forall>y\<in>set post. moveIndex m < moveIndex y"
    by (simp add: sorted_wrt_append)
  with assms show ?thesis by auto
qed

subsection \<open>What \<open>getMove\<close> returns and when it throws\<close>

lemma arrayGet_in: "i < length xs \<Longrightarrow> \<exists>m\<in>set xs. arrayGet xs i = Some m"
  by (simp add: arrayGet_def)

lemma getRandomMove_in: "ms \<noteq> [] \<Longrightarrow> \<exists>m\<in>set ms. getRandomMove u ms = Some m"
  unfolding getRandomMove_def by (rule arrayGet_in) (simp add: randomIndex_def)

lemma getMediumMove_in:
  assumes "ms \<noteq> []"
  shows "\<exists>m\<in>set ms. getMediumMove u b p opp ms = Some m"
proof (cases "findWinningMove b p ms")
  case (Some m)
  then have "m \<in> set ms" by (auto simp: findWinningMove_def find_Some_iff)
  with Some show ?thesis by (simp add: getMediumMove_def)
next
  case n1: None
  show ?thesis
  proof (cases "findWinningMove b opp ms")
    case (Some m)
    then have "m \<in> set ms" by (auto simp: findWinningMove_def find_Some_iff)
    with Some n1 show ?thesis by (simp add: getMediumMove_def)
  next
    case n2: None
    show ?thesis
    proof (cases "find (\<lambda>m. row m = 1 \<and> col m = 1) ms")
      case (Some m)
      then have "m \<in> set ms" by (auto simp: find_Some_iff)
      with Some n1 n2 show ?thesis by (simp add: getMediumMove_def)
    next
      case n3: None
      show ?thesis
      proof (cases "filter isCorner ms = []")
        case True
        with n1 n2 n3 getRandomMove_in [OF assms, of u] show ?thesis
          by (simp add: getMediumMove_def)
      next
        case False
        then have "randomIndex u (length (filter isCorner ms)) < length (filter isCorner ms)"
          by (simp add: randomIndex_def)
        from arrayGet_in [OF this] obtain m where "m \<in> set (filter isCorner ms)"
          "arrayGet (filter isCorner ms) (randomIndex u (length (filter isCorner ms))) = Some m"
          by blast
        with n1 n2 n3 False show ?thesis by (auto simp: getMediumMove_def)
      qed
    qed
  qed
qed

lemma validateBoard_valid: "validateBoard b = None \<longleftrightarrow> validBoard b"
  by (auto simp: validateBoard_def validBoard_def list_ex_iff)

lemma getMove_valid:
  assumes v: "validBoard b" and p: "truthy p" and o: "truthy opp" and ne: "p \<noteq> opp"
  shows "(isBoardFull b \<longrightarrow> getMove d u b p opp = Inl NoAvailableMoves) \<and>
         (\<not> isBoardFull b \<longrightarrow> (\<exists>m\<in>set (getAvailableMoves b). getMove d u b p opp = Inr (Some m)))"
proof (cases "isBoardFull b")
  case True
  then show ?thesis
    using v p o ne by (simp add: getMove_def validateBoard_valid [THEN iffD2] validateSymbols_def isBoardFull_def)
next
  case False
  have vb: "validateBoard b = None" using v by (simp add: validateBoard_valid)
  have vs: "validateSymbols p opp = None" using p o ne by (simp add: validateSymbols_def)
  have nl: "length (getAvailableMoves b) \<noteq> 0" using False by (simp add: isBoardFull_def)
  have "\<exists>m\<in>set (getAvailableMoves b). getMove d u b p opp = Inr (Some m)"
  proof (cases d)
    case Easy
    with vb vs nl getRandomMove_in [of "getAvailableMoves b" u] show ?thesis
      by (auto simp: getMove_def)
  next
    case Medium
    with vb vs nl getMediumMove_in [of "getAvailableMoves b" u b p opp] show ?thesis
      by (auto simp: getMove_def)
  next
    case Hard
    from hard_move [OF v p o False] obtain pre m post where
      "getAvailableMoves b = pre @ m # post" "getMiniMaxMove b p opp = Inr (Some m)" by blast
    with Hard vb vs nl show ?thesis
      by (auto simp: getMove_def)
  qed
  with False show ?thesis by simp
qed

subsection \<open>Bounds on the scores\<close>









lemma brute_loss:
  "0 < n \<Longrightarrow> checkWinner b \<noteq> p \<Longrightarrow> checkWinner b = opp \<Longrightarrow>
   bruteMinimax n b d t p opp = Some (Fin (d - 10))"
  by (cases n) simp_all


lemma brute_max:
  "0 < n \<Longrightarrow> checkWinner b \<noteq> p \<Longrightarrow> checkWinner b \<noteq> opp \<Longrightarrow> \<not> isBoardFull b \<Longrightarrow>
   bruteMinimax n b d True p opp =
     maxAll (\<lambda>b'. bruteMinimax (n - 1) b' (d + 1) False p opp) b p (getAvailableMoves b) NegInf"
  by (cases n) simp_all

lemma brute_min:
  "0 < n \<Longrightarrow> checkWinner b \<noteq> p \<Longrightarrow> checkWinner b \<noteq> opp \<Longrightarrow> \<not> isBoardFull b \<Longrightarrow>
   bruteMinimax n b d False p opp =
     minAll (\<lambda>b'. bruteMinimax (n - 1) b' (d + 1) True p opp) b opp (getAvailableMoves b) PosInf"
  by (cases n) simp_all





subsection \<open>Positions that are not lost\<close>

lemma nonneg_Fin [simp]: "nonneg (Some (Fin k)) \<longleftrightarrow> 0 \<le> k"
  by (simp add: nonneg_def)

lemma sign_depth:
  "validBoard b \<Longrightarrow> truthy p \<Longrightarrow> truthy opp \<Longrightarrow> numEmpty b < n \<Longrightarrow> numEmpty b < n' \<Longrightarrow>
   d + int (numEmpty b) \<le> 9 \<Longrightarrow> d' + int (numEmpty b) \<le> 9 \<Longrightarrow>
   nonneg (bruteMinimax n b d t p opp) = nonneg (bruteMinimax n' b d' t p opp)"
proof (induction n arbitrary: n' b d d' t)
  case 0
  then show ?case by simp
next
  case (Suc n)
  from Suc.prems(5) obtain k' where n': "n' = Suc k'" by (cases n') auto
  have d9: "d \<le> 9" "d' \<le> 9" using Suc.prems(6,7) by simp_all
  have child: "nonneg (bruteMinimax n (setCell (cloneBoard b) m s) (d + 1) t' p opp)
             = nonneg (bruteMinimax k' (setCell (cloneBoard b) m s) (d' + 1) t' p opp)"
    if "m \<in> set (getAvailableMoves b)" "truthy s" for m s t'
  proof -
    have e: "Suc (numEmpty (setCell b m s)) = numEmpty b"
      using Suc.prems(1) that by (simp add: numEmpty_setCell)
    have "validBoard (setCell b m s)" using Suc.prems(1) by (simp add: validBoard_setCell)
    moreover have "numEmpty (setCell b m s) < n" "numEmpty (setCell b m s) < k'"
      using e Suc.prems(4,5) n' by simp_all
    moreover have "(d + 1) + int (numEmpty (setCell b m s)) \<le> 9"
      "(d' + 1) + int (numEmpty (setCell b m s)) \<le> 9"
      using e Suc.prems(6,7) by simp_all
    ultimately show ?thesis
      using Suc.IH [of "setCell b m s" k' "d + 1" "d' + 1" t'] Suc.prems(2,3) by simp
  qed
  have tot: "\<exists>k. bruteMinimax j (setCell (cloneBoard b) m s) dd t' p opp = Some (Fin k)"
    if "m \<in> set (getAvailableMoves b)" "truthy s" "numEmpty b < Suc j" for m s t' j dd
  proof -
    have e: "Suc (numEmpty (setCell b m s)) = numEmpty b"
      using Suc.prems(1) that by (simp add: numEmpty_setCell)
    have "validBoard (setCell b m s)" using Suc.prems(1) by (simp add: validBoard_setCell)
    moreover have "numEmpty (setCell b m s) < j" using e that(3) by simp
    ultimately show ?thesis
      using bruteMinimax_total [of "setCell b m s" p opp j dd t'] Suc.prems(2,3) by simp
  qed
  consider (win) "checkWinner b = p" | (loss) "checkWinner b \<noteq> p" "checkWinner b = opp"
    | (full) "checkWinner b \<noteq> p" "checkWinner b \<noteq> opp" "isBoardFull b"
    | (maxn) "checkWinner b \<noteq> p" "checkWinner b \<noteq> opp" "\<not> isBoardFull b" "t"
    | (minn) "checkWinner b \<noteq> p" "checkWinner b \<noteq> opp" "\<not> isBoardFull b" "\<not> t"
    by blast
  then show ?case
  proof cases
    case win
    with d9 show ?thesis by (simp add: n')
  next
    case loss
    with d9 show ?thesis by (simp add: n')
  next
    case full
    then show ?thesis by (simp add: n')
  next
    case maxn
    let ?f = "\<lambda>b'. bruteMinimax n b' (d + 1) False p opp"
    let ?g = "\<lambda>b'. bruteMinimax k' b' (d' + 1) False p opp"
    from maxAll_total [of "getAvailableMoves b" ?f b p] tot [OF _ Suc.prems(2) Suc.prems(4)] maxn(3)
    obtain W where W: "maxAll ?f b p (getAvailableMoves b) NegInf = Some (Fin W)"
      using moves_nonempty by blast
    from maxAll_total [of "getAvailableMoves b" ?g b p] tot [OF _ Suc.prems(2)] Suc.prems(5) n' maxn(3)
    obtain W' where W': "maxAll ?g b p (getAvailableMoves b) NegInf = Some (Fin W')"
      using moves_nonempty by blast
    from maxAll_nonneg [OF W] maxAll_nonneg [OF W'] child [OF _ Suc.prems(2)]
    have "(0 \<le> W) = (0 \<le> W')" by simp
    with maxn W W' show ?thesis by (simp add: n')
  next
    case minn
    let ?f = "\<lambda>b'. bruteMinimax n b' (d + 1) True p opp"
    let ?g = "\<lambda>b'. bruteMinimax k' b' (d' + 1) True p opp"
    from minAll_total [of "getAvailableMoves b" ?f b opp] tot [OF _ Suc.prems(3) Suc.prems(4)] minn(3)
    obtain W where W: "minAll ?f b opp (getAvailableMoves b) PosInf = Some (Fin W)"
      using moves_nonempty by blast
    from minAll_total [of "getAvailableMoves b" ?g b opp] tot [OF _ Suc.prems(3)] Suc.prems(5) n' minn(3)
    obtain W' where W': "minAll ?g b opp (getAvailableMoves b) PosInf = Some (Fin W')"
      using moves_nonempty by blast
    from minAll_nonneg [OF W] minAll_nonneg [OF W'] child [OF _ Suc.prems(3)]
    have "(0 \<le> W) = (0 \<le> W')" by simp
    with minn W W' show ?thesis by (simp add: n')
  qed
qed

lemma truthy_not_Null: "truthy s \<Longrightarrow> s \<noteq> Null"
  by auto

lemma notLost_winner:
  assumes "notLost p opp t b" "p \<noteq> opp"
  shows "checkWinner b \<noteq> opp"
proof
  assume "checkWinner b = opp"
  with assms(2) have "bruteMinimax searchFuel b 0 t p opp = Some (Fin (0 - 10))"
    using brute_loss [of searchFuel b p opp 0 t] by (simp add: searchFuel_def)
  with assms(1) show False by (simp add: notLost_def)
qed

lemma notLost_oppMove:
  assumes inv: "notLost p opp False b" and p: "truthy p" and o: "truthy opp"
    and w: "checkWinner b = Null" and m: "m \<in> set (getAvailableMoves b)"
  shows "notLost p opp True (setCell (cloneBoard b) m opp)"
proof -
  from inv have v: "validBoard b" and nn: "nonneg (bruteMinimax 10 b 0 False p opp)"
    by (simp_all add: notLost_def searchFuel_def)
  from w p o have np: "checkWinner b \<noteq> p" "checkWinner b \<noteq> opp" by auto
  from m have nf: "\<not> isBoardFull b" by (auto simp: isBoardFull_def)
  let ?f = "\<lambda>b'. bruteMinimax 9 b' 1 True p opp"
  from brute_min [of 10, OF _ np nf, of 0]
  have u: "bruteMinimax 10 b 0 False p opp = minAll ?f b opp (getAvailableMoves b) PosInf"
    by simp
  from nn u obtain W where W: "minAll ?f b opp (getAvailableMoves b) PosInf = Some W" "Fin 0 \<le> W"
    by (auto simp: nonneg_def split: option.splits)
  from minAll_nonneg [OF W(1)] W(2) m have c: "nonneg (?f (setCell (cloneBoard b) m opp))" by simp
  from child_numEmpty [OF v o m] have e: "numEmpty (setCell b m opp) < 9"
    and vc: "validBoard (setCell b m opp)" by simp_all
  have "nonneg (bruteMinimax 9 (setCell b m opp) 1 True p opp)
      = nonneg (bruteMinimax 10 (setCell b m opp) 0 True p opp)"
    using e by (intro sign_depth [OF vc p o]) simp_all
  with c vc show ?thesis by (simp add: notLost_def searchFuel_def)
qed

lemma notLost_aiMove:
  assumes inv: "notLost p opp True b" and p: "truthy p" and o: "truthy opp" and ne: "p \<noteq> opp"
    and w: "checkWinner b = Null" and g: "getMove Hard u b p opp = Inr (Some m)"
  shows "notLost p opp False (setCell (cloneBoard b) m p)"
proof -
  from inv have v: "validBoard b" and nn: "nonneg (bruteMinimax 10 b 0 True p opp)"
    by (simp_all add: notLost_def searchFuel_def)
  from w p o have np: "checkWinner b \<noteq> p" "checkWinner b \<noteq> opp" by auto
  from getMove_valid [OF v p o ne, of Hard u] g have nf: "\<not> isBoardFull b" by auto
  let ?f = "\<lambda>b'. bruteMinimax 9 b' 1 False p opp"
  from brute_max [of 10, OF _ np nf, of 0]
  have u: "bruteMinimax 10 b 0 True p opp = maxAll ?f b p (getAvailableMoves b) NegInf"
    by simp
  from nn u obtain W where W: "maxAll ?f b p (getAvailableMoves b) NegInf = Some W" "Fin 0 \<le> W"
    by (auto simp: nonneg_def split: option.splits)
  from maxAll_nonneg [OF W(1)] W(2) obtain m0 where m0: "m0 \<in> set (getAvailableMoves b)"
    and c: "nonneg (?f (setCell (cloneBoard b) m0 p))" by auto
  from child_numEmpty [OF v p m0] have e: "numEmpty (setCell b m0 p) < 9"
    and vc: "validBoard (setCell b m0 p)" by simp_all
  have "nonneg (bruteMinimax 9 (setCell b m0 p) 1 False p opp)
      = nonneg (bruteMinimax 10 (setCell b m0 p) 0 False p opp)"
    using e by (intro sign_depth [OF vc p o]) simp_all
  with c have s0: "nonneg (bruteScore b p opp m0)" by (simp add: bruteScore_def searchFuel_def)
  from hard_best [OF v p o nf] obtain s pre m1 post where
    ms: "getAvailableMoves b = pre @ m1 # post"
    and r: "bruteLoop searchFuel b p opp (getAvailableMoves b) (NegInf, None) = Some (s, Some m1)"
    and s1: "bruteScore b p opp m1 = Some s"
    and all: "\<forall>m'\<in>set (getAvailableMoves b). \<exists>s'. bruteScore b p opp m' = Some s' \<and> s' \<le> s"
    by blast
  from all m0 s0 have "Fin 0 \<le> s" by (fastforce simp: nonneg_def)
  with s1 have nn1: "nonneg (bruteScore b p opp m1)" by (simp add: nonneg_def)
  have "getMove Hard u b p opp = Inr (Some m1)"
    using getMove_Hard [OF v p o ne nf, of u] getMiniMaxMove_bruteMove [OF v p o] r
    by (simp add: bruteMove_def)
  with g have "m = m1" by simp
  with nn1 validBoard_setCell [OF v, of m p] show ?thesis
    by (simp add: notLost_def bruteScore_def)
qed

lemma reachable_notLost:
  assumes base: "\<And>t. notLost p opp t emptyBoard3"
    and p: "truthy p" and o: "truthy opp" and ne: "p \<noteq> opp"
  shows "reachable p opp t b \<Longrightarrow> notLost p opp t b"
proof (induction rule: reachable.induct)
  case (start first)
  show ?case by (rule base)
next
  case (aiMove b u m)
  from notLost_aiMove [OF aiMove.IH p o ne aiMove.hyps(2,3)] show ?case .
next
  case (oppMove b m)
  from notLost_oppMove [OF oppMove.IH p o oppMove.hyps(2,3)] show ?case .
qed

subsection \<open>The search evaluated on the openings\<close>

text \<open>
  The search is run inside the logic on the nine boards with one mark, for any two
  different non-empty symbols \<open>p\<close> and \<open>q\<close>, with a window of width one around 0:
  after any opening of the AI the result is at most 0, after the opening in the
  corner it is at least 0, and after any opening of the opponent it is at least 0.
\<close>

lemma cell_lit:
  "cell [[a, b, c], [d, e, f], [g, h, i]] 0 0 = a"
  "cell [[a, b, c], [d, e, f], [g, h, i]] 0 1 = b"
  "cell [[a, b, c], [d, e, f], [g, h, i]] 0 2 = c"
  "cell [[a, b, c], [d, e, f], [g, h, i]] 1 0 = d"
  "cell [[a, b, c], [d, e, f], [g, h, i]] 1 1 = e"
  "cell [[a, b, c], [d, e, f], [g, h, i]] 1 2 = f"
  "cell [[a, b, c], [d, e, f], [g, h, i]] 2 0 = g"
  "cell [[a, b, c], [d, e, f], [g, h, i]] 2 1 = h"
  "cell [[a, b, c], [d, e, f], [g, h, i]] 2 2 = i"
  by (simp_all add: cell_def)


lemma checkWinner_lit:
  "checkWinner [[a, b, c], [d, e, f], [g, h, i]] =
     (if line3 a b c then a else if line3 d e f then d else if line3 g h i then g
      else if line3 a d g then a else if line3 b e h then b else if line3 c f i then c
      else if line3 a e i then a else if line3 c e g then c else Null)"
  unfolding checkWinner_unfold rowLine_def colLine_def diagLine_def antiLine_def cell_lit line3_def
  by (rule refl)

lemma row_lit:
  "map (Move r) (filter P [0, 1, 2]) =
     (if P 0 then [Move r 0] else []) @ (if P 1 then [Move r 1] else []) @
     (if P 2 then [Move r 2] else [])"
  by simp

lemma isAvailable_lit:
  "isAvailable [[a, b, c], [d, e, f], [g, h, i]] 0 0 = vacant a"
  "isAvailable [[a, b, c], [d, e, f], [g, h, i]] 0 1 = vacant b"
  "isAvailable [[a, b, c], [d, e, f], [g, h, i]] 0 2 = vacant c"
  "isAvailable [[a, b, c], [d, e, f], [g, h, i]] 1 0 = vacant d"
  "isAvailable [[a, b, c], [d, e, f], [g, h, i]] 1 1 = vacant e"
  "isAvailable [[a, b, c], [d, e, f], [g, h, i]] 1 2 = vacant f"
  "isAvailable [[a, b, c], [d, e, f], [g, h, i]] 2 0 = vacant g"
  "isAvailable [[a, b, c], [d, e, f], [g, h, i]] 2 1 = vacant h"
  "isAvailable [[a, b, c], [d, e, f], [g, h, i]] 2 2 = vacant i"
  unfolding isAvailable_def vacant_def cell_lit by (rule refl)+

lemma getAvailableMoves_lit:
  "getAvailableMoves [[a, b, c], [d, e, f], [g, h, i]] =
     (if vacant a then [Move 0 0] else []) @ (if vacant b then [Move 0 1] else []) @
     (if vacant c then [Move 0 2] else []) @ (if vacant d then [Move 1 0] else []) @
     (if vacant e then [Move 1 1] else []) @ (if vacant f then [Move 1 2] else []) @
     (if vacant g then [Move 2 0] else []) @ (if vacant h then [Move 2 1] else []) @
     (if vacant i then [Move 2 2] else [])"
  by (simp only: getAvailableMoves_def row_lit list.map concat.simps append_Nil2 append_assoc
      isAvailable_lit)

lemma isBoardFull_lit:
  "isBoardFull [[a, b, c], [d, e, f], [g, h, i]] =
     (if vacant a then False else if vacant b then False else if vacant c then False
      else if vacant d then False else if vacant e then False else if vacant f then False
      else if vacant g then False else if vacant h then False else if vacant i then False
      else True)"
  unfolding isBoardFull_def getAvailableMoves_lit by simp

lemma setCell_lit:
  "setCell (cloneBoard [[a, b, c], [d, e, f], [g, h, i]]) (Move 0 0) s = [[s, b, c], [d, e, f], [g, h, i]]"
  "setCell (cloneBoard [[a, b, c], [d, e, f], [g, h, i]]) (Move 0 1) s = [[a, s, c], [d, e, f], [g, h, i]]"
  "setCell (cloneBoard [[a, b, c], [d, e, f], [g, h, i]]) (Move 0 2) s = [[a, b, s], [d, e, f], [g, h, i]]"
  "setCell (cloneBoard [[a, b, c], [d, e, f], [g, h, i]]) (Move 1 0) s = [[a, b, c], [s, e, f], [g, h, i]]"
  "setCell (cloneBoard [[a, b, c], [d, e, f], [g, h, i]]) (Move 1 1) s = [[a, b, c], [d, s, f], [g, h, i]]"
  "setCell (cloneBoard [[a, b, c], [d, e, f], [g, h, i]]) (Move 1 2) s = [[a, b, c], [d, e, s], [g, h, i]]"
  "setCell (cloneBoard [[a, b, c], [d, e, f], [g, h, i]]) (Move 2 0) s = [[a, b, c], [d, e, f], [s, h, i]]"
  "setCell (cloneBoard [[a, b, c], [d, e, f], [g, h, i]]) (Move 2 1) s = [[a, b, c], [d, e, f], [g, s, i]]"
  "setCell (cloneBoard [[a, b, c], [d, e, f], [g, h, i]]) (Move 2 2) s = [[a, b, c], [d, e, f], [g, h, s]]"
  by (simp_all add: setCell_def cloneBoard_def)

lemma minimax_lit:
  "minimax (Suc n) [[a, b, c], [d, e, f], [g, h, i]] dep t p opp alpha beta =
     (if checkWinner [[a, b, c], [d, e, f], [g, h, i]] = p then Some (Fin (10 - dep))
      else if checkWinner [[a, b, c], [d, e, f], [g, h, i]] = opp then Some (Fin (dep - 10))
      else if isBoardFull [[a, b, c], [d, e, f], [g, h, i]] then Some (Fin 0)
      else if t then
        maxLoop (\<lambda>b' a be. minimax n b' (dep + 1) False p opp a be)
          [[a, b, c], [d, e, f], [g, h, i]] p (getAvailableMoves [[a, b, c], [d, e, f], [g, h, i]]) alpha beta NegInf
      else
        minLoop (\<lambda>b' a be. minimax n b' (dep + 1) True p opp a be)
          [[a, b, c], [d, e, f], [g, h, i]] opp (getAvailableMoves [[a, b, c], [d, e, f], [g, h, i]]) alpha beta PosInf)"
  by simp

lemma sym_facts:
  assumes "truthy p" "truthy q" "p \<noteq> q"
  shows "(p = q) = False" "(q = p) = False" "(p = Str []) = False" "(q = Str []) = False"
    "(Str [] = p) = False" "(Str [] = q) = False" "(Null = p) = False" "(Null = q) = False"
    "(p = Null) = False" "(q = Null) = False"
    "vacant p = False" "vacant q = False" "vacant (Str []) = True"
    "line3 (Str []) y z = False"
    "line3 p p p = True" "line3 q q q = True"
    "line3 p q z = False" "line3 q p z = False" "line3 p (Str []) z = False" "line3 q (Str []) z = False"
    "line3 p p q = False" "line3 q q p = False" "line3 p p (Str []) = False" "line3 q q (Str []) = False"
  using assms by (auto simp: vacant_def line3_def)

lemma jsnum_eval:
  "Fin x \<le> Fin y \<longleftrightarrow> x \<le> y" "NegInf \<le> z" "z \<le> PosInf"
  "Fin x \<le> NegInf \<longleftrightarrow> False" "PosInf \<le> Fin y \<longleftrightarrow> False" "PosInf \<le> NegInf \<longleftrightarrow> False"
  "max (Fin x) (Fin y) = Fin (max x y)" "min (Fin x) (Fin y) = Fin (min x y)"
  "max NegInf z = z" "max z NegInf = z" "min PosInf z = z" "min z PosInf = z"
  "max PosInf z = PosInf" "max z PosInf = PosInf" "min NegInf z = NegInf" "min z NegInf = NegInf"
  by (simp_all add: max_def min_def)

lemma ten_Suc: "(10::nat) = Suc (Suc (Suc (Suc (Suc (Suc (Suc (Suc (Suc (Suc 0)))))))))"
  by simp

lemma opening_0_upper:
  assumes "truthy p" "truthy q" "p \<noteq> q"
  shows "minimax 10 [[p, Str [], Str []], [Str [], Str [], Str []], [Str [], Str [], Str []]] 0 False p q (Fin 0) (Fin 1) = Some (Fin 0)"
  unfolding ten_Suc
  by (simp add: minimax_lit checkWinner_lit isBoardFull_lit getAvailableMoves_lit setCell_lit
      sym_facts [OF assms] jsnum_eval
      del: minimax.simps cloneBoard_id One_nat_def
      cong: if_weak_cong option.case_cong_weak)

lemma opening_1_upper:
  assumes "truthy p" "truthy q" "p \<noteq> q"
  shows "minimax 10 [[Str [], p, Str []], [Str [], Str [], Str []], [Str [], Str [], Str []]] 0 False p q (Fin 0) (Fin 1) = Some (Fin 0)"
  unfolding ten_Suc
  by (simp add: minimax_lit checkWinner_lit isBoardFull_lit getAvailableMoves_lit setCell_lit
      sym_facts [OF assms] jsnum_eval
      del: minimax.simps cloneBoard_id One_nat_def
      cong: if_weak_cong option.case_cong_weak)

lemma opening_2_upper:
  assumes "truthy p" "truthy q" "p \<noteq> q"
  shows "minimax 10 [[Str [], Str [], p], [Str [], Str [], Str []], [Str [], Str [], Str []]] 0 False p q (Fin 0) (Fin 1) = Some (Fin 0)"
  unfolding ten_Suc
  by (simp add: minimax_lit checkWinner_lit isBoardFull_lit getAvailableMoves_lit setCell_lit
      sym_facts [OF assms] jsnum_eval
      del: minimax.simps cloneBoard_id One_nat_def
      cong: if_weak_cong option.case_cong_weak)

lemma opening_3_upper:
  assumes "truthy p" "truthy q" "p \<noteq> q"
  shows "minimax 10 [[Str [], Str [], Str []], [p, Str [], Str []], [Str [], Str [], Str []]] 0 False p q (Fin 0) (Fin 1) = Some (Fin 0)"
  unfolding ten_Suc
  by (simp add: minimax_lit checkWinner_lit isBoardFull_lit getAvailableMoves_lit setCell_lit
      sym_facts [OF assms] jsnum_eval
      del: minimax.simps cloneBoard_id One_nat_def
      cong: if_weak_cong option.case_cong_weak)

lemma opening_4_upper:
  assumes "truthy p" "truthy q" "p \<noteq> q"
  shows "minimax 10 [[Str [], Str [], Str []], [Str [], p, Str []], [Str [], Str [], Str []]] 0 False p q (Fin 0) (Fin 1) = Some (Fin 0)"
  unfolding ten_Suc
  by (simp add: minimax_lit checkWinner_lit isBoardFull_lit getAvailableMoves_lit setCell_lit
      sym_facts [OF assms] jsnum_eval
      del: minimax.simps cloneBoard_id One_nat_def
      cong: if_weak_cong option.case_cong_weak)

lemma opening_5_upper:
  assumes "truthy p" "truthy q" "p \<noteq> q"
  shows "minimax 10 [[Str [], Str [], Str []], [Str [], Str [], p], [Str [], Str [], Str []]] 0 False p q (Fin 0) (Fin 1) = Some (Fin 0)"
  unfolding ten_Suc
  by (simp add: minimax_lit checkWinner_lit isBoardFull_lit getAvailableMoves_lit setCell_lit
      sym_facts [OF assms] jsnum_eval
      del: minimax.simps cloneBoard_id One_nat_def
      cong: if_weak_cong option.case_cong_weak)

lemma opening_6_upper:
  assumes "truthy p" "truthy q" "p \<noteq> q"
  shows "minimax 10 [[Str [], Str [], Str []], [Str [], Str [], Str []], [p, Str [], Str []]] 0 False p q (Fin 0) (Fin 1) = Some (Fin 0)"
  unfolding ten_Suc
  by (simp add: minimax_lit checkWinner_lit isBoardFull_lit getAvailableMoves_lit setCell_lit
      sym_facts [OF assms] jsnum_eval
      del: minimax.simps cloneBoard_id One_nat_def
      cong: if_weak_cong option.case_cong_weak)

lemma opening_7_upper:
  assumes "truthy p" "truthy q" "p \<noteq> q"
  shows "minimax 10 [[Str [], Str [], Str []], [Str [], Str [], Str []], [Str [], p, Str []]] 0 False p q (Fin 0) (Fin 1) = Some (Fin 0)"
  unfolding ten_Suc
  by (simp add: minimax_lit checkWinner_lit isBoardFull_lit getAvailableMoves_lit setCell_lit
      sym_facts [OF assms] jsnum_eval
      del: minimax.simps cloneBoard_id One_nat_def
      cong: if_weak_cong option.case_cong_weak)

lemma opening_8_upper:
  assumes "truthy p" "truthy q" "p \<noteq> q"
  shows "minimax 10 [[Str [], Str [], Str []], [Str [], Str [], Str []], [Str [], Str [], p]] 0 False p q (Fin 0) (Fin 1) = Some (Fin 0)"
  unfolding ten_Suc
  by (simp add: minimax_lit checkWinner_lit isBoardFull_lit getAvailableMoves_lit setCell_lit
      sym_facts [OF assms] jsnum_eval
      del: minimax.simps cloneBoard_id One_nat_def
      cong: if_weak_cong option.case_cong_weak)

lemma opening_0_lower:
  assumes "truthy p" "truthy q" "p \<noteq> q"
  shows "minimax 10 [[p, Str [], Str []], [Str [], Str [], Str []], [Str [], Str [], Str []]] 0 False p q (Fin (- 1)) (Fin 0) = Some (Fin 0)"
  unfolding ten_Suc
  by (simp add: minimax_lit checkWinner_lit isBoardFull_lit getAvailableMoves_lit setCell_lit
      sym_facts [OF assms] jsnum_eval
      del: minimax.simps cloneBoard_id One_nat_def
      cong: if_weak_cong option.case_cong_weak)

lemma reply_0_lower:
  assumes "truthy p" "truthy q" "p \<noteq> q"
  shows "minimax 10 [[q, Str [], Str []], [Str [], Str [], Str []], [Str [], Str [], Str []]] 0 True p q (Fin (- 1)) (Fin 0) = Some (Fin 0)"
  unfolding ten_Suc
  by (simp add: minimax_lit checkWinner_lit isBoardFull_lit getAvailableMoves_lit setCell_lit
      sym_facts [OF assms] jsnum_eval
      del: minimax.simps cloneBoard_id One_nat_def
      cong: if_weak_cong option.case_cong_weak)

lemma reply_1_lower:
  assumes "truthy p" "truthy q" "p \<noteq> q"
  shows "minimax 10 [[Str [], q, Str []], [Str [], Str [], Str []], [Str [], Str [], Str []]] 0 True p q (Fin (- 1)) (Fin 0) = Some (Fin 0)"
  unfolding ten_Suc
  by (simp add: minimax_lit checkWinner_lit isBoardFull_lit getAvailableMoves_lit setCell_lit
      sym_facts [OF assms] jsnum_eval
      del: minimax.simps cloneBoard_id One_nat_def
      cong: if_weak_cong option.case_cong_weak)

lemma reply_2_lower:
  assumes "truthy p" "truthy q" "p \<noteq> q"
  shows "minimax 10 [[Str [], Str [], q], [Str [], Str [], Str []], [Str [], Str [], Str []]] 0 True p q (Fin (- 1)) (Fin 0) = Some (Fin 0)"
  unfolding ten_Suc
  by (simp add: minimax_lit checkWinner_lit isBoardFull_lit getAvailableMoves_lit setCell_lit
      sym_facts [OF assms] jsnum_eval
      del: minimax.simps cloneBoard_id One_nat_def
      cong: if_weak_cong option.case_cong_weak)

lemma reply_3_lower:
  assumes "truthy p" "truthy q" "p \<noteq> q"
  shows "minimax 10 [[Str [], Str [], Str []], [q, Str [], Str []], [Str [], Str [], Str []]] 0 True p q (Fin (- 1)) (Fin 0) = Some (Fin 0)"
  unfolding ten_Suc
  by (simp add: minimax_lit checkWinner_lit isBoardFull_lit getAvailableMoves_lit setCell_lit
      sym_facts [OF assms] jsnum_eval
      del: minimax.simps cloneBoard_id One_nat_def
      cong: if_weak_cong option.case_cong_weak)

lemma reply_4_lower:
  assumes "truthy p" "truthy q" "p \<noteq> q"
  shows "minimax 10 [[Str [], Str [], Str []], [Str [], q, Str []], [Str [], Str [], Str []]] 0 True p q (Fin (- 1)) (Fin 0) = Some (Fin 0)"
  unfolding ten_Suc
  by (simp add: minimax_lit checkWinner_lit isBoardFull_lit getAvailableMoves_lit setCell_lit
      sym_facts [OF assms] jsnum_eval
      del: minimax.simps cloneBoard_id One_nat_def
      cong: if_weak_cong option.case_cong_weak)

lemma reply_5_lower:
  assumes "truthy p" "truthy q" "p \<noteq> q"
  shows "minimax 10 [[Str [], Str [], Str []], [Str [], Str [], q], [Str [], Str [], Str []]] 0 True p q (Fin (- 1)) (Fin 0) = Some (Fin 0)"
  unfolding ten_Suc
  by (simp add: minimax_lit checkWinner_lit isBoardFull_lit getAvailableMoves_lit setCell_lit
      sym_facts [OF assms] jsnum_eval
      del: minimax.simps cloneBoard_id One_nat_def
      cong: if_weak_cong option.case_cong_weak)

lemma reply_6_lower:
  assumes "truthy p" "truthy q" "p \<noteq> q"
  shows "minimax 10 [[Str [], Str [], Str []], [Str [], Str [], Str []], [q, Str [], Str []]] 0 True p q (Fin (- 1)) (Fin 0) = Some (Fin 0)"
  unfolding ten_Suc
  by (simp add: minimax_lit checkWinner_lit isBoardFull_lit getAvailableMoves_lit setCell_lit
      sym_facts [OF assms] jsnum_eval
      del: minimax.simps cloneBoard_id One_nat_def
      cong: if_weak_cong option.case_cong_weak)

lemma reply_7_lower:
  assumes "truthy p" "truthy q" "p \<noteq> q"
  shows "minimax 10 [[Str [], Str [], Str []], [Str [], Str [], Str []], [Str [], q, Str []]] 0 True p q (Fin (- 1)) (Fin 0) = Some (Fin 0)"
  unfolding ten_Suc
  by (simp add: minimax_lit checkWinner_lit isBoardFull_lit getAvailableMoves_lit setCell_lit
      sym_facts [OF assms] jsnum_eval
      del: minimax.simps cloneBoard_id One_nat_def
      cong: if_weak_cong option.case_cong_weak)

lemma reply_8_lower:
  assumes "truthy p" "truthy q" "p \<noteq> q"
  shows "minimax 10 [[Str [], Str [], Str []], [Str [], Str [], Str []], [Str [], Str [], q]] 0 True p q (Fin (- 1)) (Fin 0) = Some (Fin 0)"
  unfolding ten_Suc
  by (simp add: minimax_lit checkWinner_lit isBoardFull_lit getAvailableMoves_lit setCell_lit
      sym_facts [OF assms] jsnum_eval
      del: minimax.simps cloneBoard_id One_nat_def
      cong: if_weak_cong option.case_cong_weak)

subsection \<open>The empty board\<close>

lemma lower_from_search:
  assumes v: "validBoard b" and p: "truthy p" and o: "truthy opp" and n: "numEmpty b < n"
    and r: "minimax n b d t p opp (Fin (- 1)) (Fin 0) = Some r" and ge: "Fin 0 \<le> r"
  shows "nonneg (bruteMinimax n b d t p opp)"
proof -
  from bruteMinimax_total [OF v p o n, of d t] obtain k where
    k: "bruteMinimax n b d t p opp = Some (Fin k)" by blast
  have "Fin (- 1) < Fin 0" by simp
  from minimax_agrees [OF k this] r have "agrees (Fin (- 1)) (Fin 0) (Fin k) r" by simp
  with ge have "r \<le> Fin k" by (simp add: agrees_def)
  with ge have "Fin 0 \<le> Fin k" by (rule order_trans)
  with k show ?thesis by simp
qed

lemma upper_from_search:
  assumes v: "validBoard b" and p: "truthy p" and o: "truthy opp" and n: "numEmpty b < n"
    and r: "minimax n b d t p opp (Fin 0) (Fin 1) = Some r" and le: "r \<le> Fin 0"
  shows "\<exists>k. bruteMinimax n b d t p opp = Some (Fin k) \<and> k \<le> 0"
proof -
  from bruteMinimax_total [OF v p o n, of d t] obtain k where
    k: "bruteMinimax n b d t p opp = Some (Fin k)" by blast
  have "Fin 0 < Fin 1" by simp
  from minimax_agrees [OF k this] r have "agrees (Fin 0) (Fin 1) (Fin k) r" by simp
  with le have "Fin k \<le> r" by (simp add: agrees_def)
  from this le have "Fin k \<le> Fin 0" by (rule order_trans)
  with k show ?thesis by simp
qed

lemma validBoard_empty: "validBoard emptyBoard3"
  by (simp add: validBoard_def emptyBoard3_def)

lemma moves_empty:
  "getAvailableMoves emptyBoard3 =
     [Move 0 0, Move 0 1, Move 0 2, Move 1 0, Move 1 1, Move 1 2, Move 2 0, Move 2 1, Move 2 2]"
  by (simp add: emptyBoard3_def getAvailableMoves_lit vacant_def)

lemma checkWinner_empty: "checkWinner emptyBoard3 = Null"
  by (simp add: emptyBoard3_def checkWinner_lit line3_def)

lemma isBoardFull_empty: "\<not> isBoardFull emptyBoard3"
  by (simp add: isBoardFull_def moves_empty)

lemma lit_valid: "validBoard [[a, b, c], [d, e, f], [g, h, i]]"
  by (simp add: validBoard_def)

lemma numEmpty_lt_10: "numEmpty b < 10"
  using numEmpty_le_9 [of b] by simp

lemma opening_scores:
  assumes "truthy p" "truthy q" "p \<noteq> q" and m: "m \<in> set (getAvailableMoves emptyBoard3)"
  shows "\<exists>k. bruteScore emptyBoard3 p q m = Some (Fin k) \<and> k \<le> 0"
proof -
  note up = upper_from_search [OF lit_valid assms(1,2) numEmpty_lt_10 _ order_refl]
  from m consider "m = Move 0 0" | "m = Move 0 1" | "m = Move 0 2" | "m = Move 1 0" | "m = Move 1 1"
    | "m = Move 1 2" | "m = Move 2 0" | "m = Move 2 1" | "m = Move 2 2"
    unfolding moves_empty by auto
  then show ?thesis
  proof cases
    case 1 with up [OF opening_0_upper [OF assms(1,2,3)]] show ?thesis
      by (simp add: bruteScore_def searchFuel_def emptyBoard3_def setCell_lit del: cloneBoard_id One_nat_def)
  next
    case 2 with up [OF opening_1_upper [OF assms(1,2,3)]] show ?thesis
      by (simp add: bruteScore_def searchFuel_def emptyBoard3_def setCell_lit del: cloneBoard_id One_nat_def)
  next
    case 3 with up [OF opening_2_upper [OF assms(1,2,3)]] show ?thesis
      by (simp add: bruteScore_def searchFuel_def emptyBoard3_def setCell_lit del: cloneBoard_id One_nat_def)
  next
    case 4 with up [OF opening_3_upper [OF assms(1,2,3)]] show ?thesis
      by (simp add: bruteScore_def searchFuel_def emptyBoard3_def setCell_lit del: cloneBoard_id One_nat_def)
  next
    case 5 with up [OF opening_4_upper [OF assms(1,2,3)]] show ?thesis
      by (simp add: bruteScore_def searchFuel_def emptyBoard3_def setCell_lit del: cloneBoard_id One_nat_def)
  next
    case 6 with up [OF opening_5_upper [OF assms(1,2,3)]] show ?thesis
      by (simp add: bruteScore_def searchFuel_def emptyBoard3_def setCell_lit del: cloneBoard_id One_nat_def)
  next
    case 7 with up [OF opening_6_upper [OF assms(1,2,3)]] show ?thesis
      by (simp add: bruteScore_def searchFuel_def emptyBoard3_def setCell_lit del: cloneBoard_id One_nat_def)
  next
    case 8 with up [OF opening_7_upper [OF assms(1,2,3)]] show ?thesis
      by (simp add: bruteScore_def searchFuel_def emptyBoard3_def setCell_lit del: cloneBoard_id One_nat_def)
  next
    case 9 with up [OF opening_8_upper [OF assms(1,2,3)]] show ?thesis
      by (simp add: bruteScore_def searchFuel_def emptyBoard3_def setCell_lit del: cloneBoard_id One_nat_def)
  qed
qed

lemma opening_first_score:
  assumes "truthy p" "truthy q" "p \<noteq> q"
  shows "bruteScore emptyBoard3 p q (Move 0 0) = Some (Fin 0)"
proof -
  have "nonneg (bruteScore emptyBoard3 p q (Move 0 0))"
    using lower_from_search [OF lit_valid assms(1,2) numEmpty_lt_10 opening_0_lower [OF assms] order_refl]
    by (simp add: bruteScore_def searchFuel_def emptyBoard3_def setCell_lit del: cloneBoard_id One_nat_def)
  moreover from opening_scores [OF assms, of "Move 0 0"] obtain k where
    "bruteScore emptyBoard3 p q (Move 0 0) = Some (Fin k)" "k \<le> 0"
    by (auto simp: moves_empty)
  ultimately show ?thesis by simp
qed

lemma reply_nonneg:
  assumes "truthy p" "truthy q" "p \<noteq> q" and m: "m \<in> set (getAvailableMoves emptyBoard3)"
  shows "nonneg (bruteMinimax 10 (setCell (cloneBoard emptyBoard3) m q) 0 True p q)"
proof -
  note lo = lower_from_search [OF lit_valid assms(1,2) numEmpty_lt_10 _ order_refl]
  from m consider "m = Move 0 0" | "m = Move 0 1" | "m = Move 0 2" | "m = Move 1 0" | "m = Move 1 1"
    | "m = Move 1 2" | "m = Move 2 0" | "m = Move 2 1" | "m = Move 2 2"
    unfolding moves_empty by auto
  then show ?thesis
  proof cases
    case 1 with lo [OF reply_0_lower [OF assms(1,2,3)]] show ?thesis
      by (simp add: emptyBoard3_def setCell_lit del: cloneBoard_id One_nat_def)
  next
    case 2 with lo [OF reply_1_lower [OF assms(1,2,3)]] show ?thesis
      by (simp add: emptyBoard3_def setCell_lit del: cloneBoard_id One_nat_def)
  next
    case 3 with lo [OF reply_2_lower [OF assms(1,2,3)]] show ?thesis
      by (simp add: emptyBoard3_def setCell_lit del: cloneBoard_id One_nat_def)
  next
    case 4 with lo [OF reply_3_lower [OF assms(1,2,3)]] show ?thesis
      by (simp add: emptyBoard3_def setCell_lit del: cloneBoard_id One_nat_def)
  next
    case 5 with lo [OF reply_4_lower [OF assms(1,2,3)]] show ?thesis
      by (simp add: emptyBoard3_def setCell_lit del: cloneBoard_id One_nat_def)
  next
    case 6 with lo [OF reply_5_lower [OF assms(1,2,3)]] show ?thesis
      by (simp add: emptyBoard3_def setCell_lit del: cloneBoard_id One_nat_def)
  next
    case 7 with lo [OF reply_6_lower [OF assms(1,2,3)]] show ?thesis
      by (simp add: emptyBoard3_def setCell_lit del: cloneBoard_id One_nat_def)
  next
    case 8 with lo [OF reply_7_lower [OF assms(1,2,3)]] show ?thesis
      by (simp add: emptyBoard3_def setCell_lit del: cloneBoard_id One_nat_def)
  next
    case 9 with lo [OF reply_8_lower [OF assms(1,2,3)]] show ?thesis
      by (simp add: emptyBoard3_def setCell_lit del: cloneBoard_id One_nat_def)
  qed
qed

lemma notLost_empty:
  assumes p: "truthy p" and q: "truthy q" and ne: "p \<noteq> q"
  shows "notLost p q t emptyBoard3"
proof -
  note v = validBoard_empty
  have np: "checkWinner emptyBoard3 \<noteq> p" "checkWinner emptyBoard3 \<noteq> q"
    using p q by (auto simp: checkWinner_empty)
  note nf = isBoardFull_empty
  have sd: "nonneg (bruteMinimax 9 (setCell emptyBoard3 m s) 1 t' p q)
          = nonneg (bruteMinimax 10 (setCell emptyBoard3 m s) 0 t' p q)"
    if "m \<in> set (getAvailableMoves emptyBoard3)" "truthy s" for m s t'
  proof -
    from child_numEmpty [OF v that(2,1)] have "numEmpty (setCell emptyBoard3 m s) < 9"
      "validBoard (setCell emptyBoard3 m s)" by simp_all
    then show ?thesis by (intro sign_depth [OF _ p q]) simp_all
  qed
  have "nonneg (bruteMinimax 10 emptyBoard3 0 t p q)"
  proof (cases t)
    case True
    let ?f = "\<lambda>b'. bruteMinimax 9 b' 1 False p q"
    have m0: "Move 0 0 \<in> set (getAvailableMoves emptyBoard3)" by (simp add: moves_empty)
    from opening_first_score [OF p q ne]
    have "nonneg (bruteMinimax 10 (setCell emptyBoard3 (Move 0 0) p) 0 False p q)"
      by (simp add: bruteScore_def searchFuel_def)
    with sd [OF m0 p] have c: "nonneg (?f (setCell (cloneBoard emptyBoard3) (Move 0 0) p))" by simp
    from bruteMinimax_total [OF v p q numEmpty_lt_10, of 0 True] obtain k where
      k: "bruteMinimax 10 emptyBoard3 0 True p q = Some (Fin k)" by blast
    with brute_max [of 10, OF _ np nf, of 0]
    have "maxAll ?f emptyBoard3 p (getAvailableMoves emptyBoard3) NegInf = Some (Fin k)" by simp
    from maxAll_nonneg [OF this] c m0 have "Fin 0 \<le> Fin k" by blast
    with k True show ?thesis by simp
  next
    case False
    let ?f = "\<lambda>b'. bruteMinimax 9 b' 1 True p q"
    have c: "\<forall>m\<in>set (getAvailableMoves emptyBoard3). nonneg (?f (setCell (cloneBoard emptyBoard3) m q))"
      using reply_nonneg [OF p q ne] sd [OF _ q] by simp
    from bruteMinimax_total [OF v p q numEmpty_lt_10, of 0 False] obtain k where
      k: "bruteMinimax 10 emptyBoard3 0 False p q = Some (Fin k)" by blast
    with brute_min [of 10, OF _ np nf, of 0]
    have "minAll ?f emptyBoard3 q (getAvailableMoves emptyBoard3) PosInf = Some (Fin k)" by simp
    from minAll_nonneg [OF this] c have "Fin 0 \<le> Fin k" by simp
    with k False show ?thesis by simp
  qed
  with v show ?thesis by (simp add: notLost_def searchFuel_def)
qed

lemma hard_empty:
  assumes p: "truthy p" and q: "truthy q" and ne: "p \<noteq> q"
  shows "getMove Hard u emptyBoard3 p q = Inr (Some (Move 0 0))"
proof -
  note v = validBoard_empty
  note nf = isBoardFull_empty
  from hard_best [OF v p q nf] obtain s pre m1 post where
    ms: "getAvailableMoves emptyBoard3 = pre @ m1 # post"
    and r: "bruteLoop searchFuel emptyBoard3 p q (getAvailableMoves emptyBoard3) (NegInf, None)
            = Some (s, Some m1)"
    and s1: "bruteScore emptyBoard3 p q m1 = Some s"
    and all: "\<forall>m'\<in>set (getAvailableMoves emptyBoard3). \<exists>s'. bruteScore emptyBoard3 p q m' = Some s' \<and> s' \<le> s"
    and pre: "\<forall>m'\<in>set pre. \<exists>s'. bruteScore emptyBoard3 p q m' = Some s' \<and> s' < s"
    by blast
  have m1: "m1 \<in> set (getAvailableMoves emptyBoard3)" using ms by simp
  from opening_scores [OF p q ne m1] s1 have "s \<le> Fin 0" by auto
  have m0: "Move 0 0 \<in> set (getAvailableMoves emptyBoard3)" by (simp add: moves_empty)
  from all m0 opening_first_score [OF p q ne] have "Fin 0 \<le> s" by fastforce
  with \<open>s \<le> Fin 0\<close> have s0: "s = Fin 0" by simp
  have "pre = []"
  proof (cases pre)
    case Nil
    then show ?thesis .
  next
    case (Cons x xs)
    with ms have "x = Move 0 0" by (simp add: moves_empty)
    with pre Cons opening_first_score [OF p q ne] s0 show ?thesis by auto
  qed
  with ms have "m1 = Move 0 0" by (simp add: moves_empty)
  with r show ?thesis
    using getMove_Hard [OF v p q ne nf, of u] getMiniMaxMove_bruteMove [OF v p q]
    by (simp add: bruteMove_def)
qed

lemma marksOnly_cell:
  "validBoard b \<Longrightarrow> marksOnly p opp b \<Longrightarrow> r < 3 \<Longrightarrow> c < 3 \<Longrightarrow>
   cell b r c = Str [] \<or> cell b r c = p \<or> cell b r c = opp"
proof -
  assume v: "validBoard b" and mk: "marksOnly p opp b" and r: "r < 3" and c: "c < 3"
  from v r have "b ! r \<in> set b" "length (b ! r) = 3" by (simp_all add: validBoard_alt)
  with c have "b ! r ! c \<in> set (b ! r)" by simp
  with mk \<open>b ! r \<in> set b\<close> show ?thesis
    unfolding marksOnly_def list_all_iff cell_def by blast
qed

lemma marksOnly_setCell:
  assumes "marksOnly p opp b" "s = p \<or> s = opp"
  shows "marksOnly p opp (setCell (cloneBoard b) m s)"
proof -
  have "\<And>x. x \<in> set ((b ! row m)[col m := s]) \<Longrightarrow> x \<in> insert s (set (b ! row m))"
    using set_update_subset_insert by fastforce
  moreover have "\<And>rw. rw \<in> set (b[row m := (b ! row m)[col m := s]]) \<Longrightarrow>
      rw \<in> insert ((b ! row m)[col m := s]) (set b)"
    using set_update_subset_insert by fastforce
  moreover have "row m < length b \<or> b[row m := (b ! row m)[col m := s]] = b"
    by (cases "row m < length b") (simp_all add: list_update_beyond)
  ultimately show ?thesis
    using assms unfolding marksOnly_def list_all_iff setCell_def cloneBoard_id
    by (metis insert_iff nth_mem)
qed

lemma marksOnly_empty: "marksOnly p opp emptyBoard3"
  by (simp add: marksOnly_def emptyBoard3_def)

lemma reachable_marks: "reachable p opp t b \<Longrightarrow> marksOnly p opp b"
  by (induction rule: reachable.induct) (simp_all add: marksOnly_empty marksOnly_setCell del: cloneBoard_id)

lemma hasLine_cell: "hasLine b s \<Longrightarrow> \<exists>r<3. \<exists>c<3. s = cell b r c"
proof -
  assume "hasLine b s"
  then have "s = cell b 0 0 \<or> s = cell b 1 0 \<or> s = cell b 2 0 \<or> s = cell b 0 1 \<or> s = cell b 0 2"
    unfolding hasLine_unfold by auto
  moreover have "(0::nat) < 3" "(1::nat) < 3" "(2::nat) < 3" by simp_all
  ultimately show ?thesis by blast
qed

lemma marksOnly_winner:
  assumes "validBoard b" "marksOnly p opp b"
  shows "checkWinner b = Null \<or> checkWinner b = p \<or> checkWinner b = opp"
proof (cases "checkWinner b = Null")
  case True
  then show ?thesis by simp
next
  case False
  with checkWinner_cases [of b] have h: "hasLine b (checkWinner b)" and t: "truthy (checkWinner b)"
    by auto
  from hasLine_cell [OF h] obtain r c where "r < 3" "c < 3" "checkWinner b = cell b r c" by blast
  with marksOnly_cell [OF assms, of r c] t show ?thesis by auto
qed

subsection \<open>Lines after a move\<close>

lemma flatCell_setCell_other:
  assumes "validBoard b" "row m < 3" "col m < 3" "i < 9" "flatCell (setCell b m s) i = t" "t \<noteq> s"
  shows "flatCell b i = t"
proof -
  from assms(4) have "i div 3 < 3" "i mod 3 < 3" by auto
  with assms show ?thesis
    by (cases m) (auto simp: flatCell_def cell_setCell split: if_splits)
qed

lemma lineOf_setCell_other:
  assumes "validBoard b" "row m < 3" "col m < 3" "l \<in> set WINNING_COMBINATIONS"
    "lineOf (setCell b m s) t l" "t \<noteq> s"
  shows "lineOf b t l"
proof -
  obtain i j k where l: "l = (i, j, k)" by (cases l) auto
  with assms(4) have "i < 9" "j < 9" "k < 9" by (auto simp: WINNING_COMBINATIONS_def)
  with assms l show ?thesis
    using flatCell_setCell_other [OF assms(1,2,3) _ _ assms(6)]
    by (simp add: lineOf_def)
qed

lemma hasLine_setCell_other:
  assumes "validBoard b" "m \<in> set (getAvailableMoves b)" "hasLine (setCell b m s) t" "t \<noteq> s"
  shows "hasLine b t"
proof -
  from assms(2) have "row m < 3" "col m < 3" by (simp_all add: in_getAvailableMoves)
  with assms show ?thesis
    unfolding hasLine_def list_ex_iff using lineOf_setCell_other by blast
qed

lemma no_line_before:
  "checkWinner b = Null \<Longrightarrow> truthy t \<Longrightarrow> \<not> hasLine b t"
  using checkWinner_some [of t b] by auto

lemma reachable_no_opp_line:
  assumes base: "\<And>t. notLost p opp t emptyBoard3"
    and p: "truthy p" and o: "truthy opp" and ne: "p \<noteq> opp"
  shows "reachable p opp t b \<Longrightarrow> \<not> hasLine b opp"
proof (induction rule: reachable.induct)
  case (start first)
  show ?case using o by (auto simp: hasLine_unfold emptyBoard3_def cell_def)
next
  case (aiMove b u m)
  from reachable_notLost [OF base p o ne aiMove.hyps(1)] have v: "validBoard b"
    by (simp add: notLost_def)
  from getMove_valid [OF v p o ne, of Hard u] aiMove.hyps(3)
  have m: "m \<in> set (getAvailableMoves b)" by (cases "isBoardFull b") auto
  show ?case
  proof
    assume "hasLine (setCell (cloneBoard b) m p) opp"
    then have "hasLine b opp" using hasLine_setCell_other [OF v m _ ne [symmetric]] by simp
    with aiMove.IH show False by simp
  qed
next
  case (oppMove b m)
  from reachable_notLost [OF base p o ne oppMove.hyps(1)] have v: "validBoard b"
    by (simp add: notLost_def)
  let ?b = "setCell (cloneBoard b) m opp"
  have r: "reachable p opp True ?b" using oppMove.hyps by (rule reachable.oppMove)
  from reachable_notLost [OF base p o ne r] have nl: "checkWinner ?b \<noteq> opp" and v': "validBoard ?b"
    using notLost_winner [OF _ ne] by (simp_all add: notLost_def)
  show ?case
  proof
    assume h: "hasLine ?b opp"
    with o have t: "truthy (checkWinner ?b)" using checkWinner_some by blast
    with marksOnly_winner [OF v' reachable_marks [OF r]] nl have w: "checkWinner ?b = p" by auto
    with p have "hasLine ?b p" using checkWinner_sound by blast
    then have "hasLine b p" using hasLine_setCell_other [OF v oppMove.hyps(3) _ ne] by simp
    with no_line_before [OF oppMove.hyps(2) p] show False by simp
  qed
qed

subsection \<open>The store only grows\<close>

lemma extends_refl [simp]: "extends h h"
  by (simp add: extends_def)

lemma extends_length: "extends h h' \<Longrightarrow> length h \<le> length h'"
  unfolding extends_def by (metis length_take min.cobounded1 min.commute)

lemma extends_trans: "extends h h1 \<Longrightarrow> extends h1 h2 \<Longrightarrow> extends h h2"
proof -
  assume a: "extends h h1" and b: "extends h1 h2"
  from a have l: "length h \<le> length h1" by (rule extends_length)
  have "take (length h) h2 = take (length h) (take (length h1) h2)"
    using l by (simp add: min_def)
  also have "\<dots> = take (length h) h1" using b by (simp add: extends_def)
  also have "\<dots> = h" using a by (simp add: extends_def)
  finally show ?thesis by (simp add: extends_def)
qed

lemma extends_append [simp]: "extends h (h @ zs)"
  by (simp add: extends_def)

lemma extends_nth: "extends h h' \<Longrightarrow> a < length h \<Longrightarrow> h' ! a = h ! a"
  unfolding extends_def by (metis nth_take)

lemma extends_readBoard: "extends h h' \<Longrightarrow> wfRef h br \<Longrightarrow> readBoard h' br = readBoard h br"
  by (auto simp: readBoard_def wfRef_def list_all_iff extends_nth)

lemma extends_wfRef: "extends h h' \<Longrightarrow> wfRef h br \<Longrightarrow> wfRef h' br"
  using extends_length [of h h'] by (auto simp: wfRef_def list_all_iff)

lemma clone_set:
  assumes "wfRef h br"
  shows "\<exists>rows. setCellH (fst (cloneBoardH h br)) (snd (cloneBoardH h br)) m s = h @ rows \<and>
           wfRef (h @ rows) (snd (cloneBoardH h br)) \<and>
           readBoard (h @ rows) (snd (cloneBoardH h br)) = setCell (cloneBoard (readBoard h br)) m s"
proof -
  let ?L = "length h" and ?k = "length br"
  let ?rows = "map (\<lambda>a. h ! a) br"
  let ?nb = "[?L ..< ?L + ?k]"
  have rd: "readBoard (h @ rs) ?nb = rs" if "length rs = ?k" for rs
  proof -
    have "map (\<lambda>a. (h @ rs) ! a) [?L ..< ?L + ?k] = map (\<lambda>i. rs ! i) [0 ..< ?k]"
      by (rule nth_equalityI) (simp_all add: nth_append)
    also have "\<dots> = rs" using map_nth [of rs] that by simp
    finally show ?thesis by (simp add: readBoard_def)
  qed
  have wf: "wfRef (h @ rs) ?nb" if "length rs = ?k" for rs
    using that by (simp add: wfRef_def list_all_iff)
  show ?thesis
  proof (cases "row m < ?k")
    case True
    let ?rs = "?rows[row m := (?rows ! row m)[col m := s]]"
    have "setCellH (fst (cloneBoardH h br)) (snd (cloneBoardH h br)) m s = h @ ?rs"
      using True by (simp add: setCellH_def cloneBoardH_def list_update_append nth_append)
    moreover have "readBoard (h @ ?rs) ?nb = setCell (cloneBoard (readBoard h br)) m s"
      using rd [of ?rs] by (simp add: setCell_def readBoard_def)
    ultimately show ?thesis using wf [of ?rs] by (auto simp: cloneBoardH_def)
  next
    case False
    have "setCellH (fst (cloneBoardH h br)) (snd (cloneBoardH h br)) m s = h @ ?rows"
      using False by (simp add: setCellH_def cloneBoardH_def)
    moreover have "readBoard (h @ ?rows) ?nb = setCell (cloneBoard (readBoard h br)) m s"
      using rd [of ?rows] False by (simp add: setCell_def readBoard_def list_update_beyond)
    ultimately show ?thesis using wf [of ?rows] by (auto simp: cloneBoardH_def)
  qed
qed

lemma simulates_weaken: "extends h h1 \<Longrightarrow> simulates x h1 y \<Longrightarrow> simulates x h y"
  by (auto simp: simulates_def split: option.splits intro: extends_trans)

lemma maxLoopH_sim:
  assumes rec: "\<And>h2 nb a be. wfRef h2 nb \<Longrightarrow> simulates (rec (readBoard h2 nb) a be) h2 (recH h2 nb a be)"
    and wf: "wfRef h br"
  shows "simulates (maxLoop rec (readBoard h br) p ms alpha beta mx) h
           (maxLoopH recH h br p ms alpha beta mx)"
  using wf
proof (induction ms arbitrary: h alpha mx)
  case Nil
  show ?case by (simp add: simulates_def)
next
  case (Cons m ms)
  let ?nb = "snd (cloneBoardH h br)"
  from clone_set [OF Cons.prems, of m p] obtain rows where
    h2: "setCellH (fst (cloneBoardH h br)) ?nb m p = h @ rows"
    and wf2: "wfRef (h @ rows) ?nb"
    and rd: "readBoard (h @ rows) ?nb = setCell (cloneBoard (readBoard h br)) m p"
    by blast
  from rec [OF wf2, of alpha beta] rd
  have s: "simulates (rec (setCell (cloneBoard (readBoard h br)) m p) alpha beta) (h @ rows)
             (recH (h @ rows) ?nb alpha beta)" by simp
  show ?case
  proof (cases "rec (setCell (cloneBoard (readBoard h br)) m p) alpha beta")
    case None
    with s show ?thesis by (simp add: simulates_def h2)
  next
    case (Some r)
    with s obtain h3 where r3: "recH (h @ rows) ?nb alpha beta = Some (h3, r)"
      and e3: "extends (h @ rows) h3" by (auto simp: simulates_def)
    have e: "extends h h3" using extends_append e3 by (rule extends_trans)
    show ?thesis
    proof (cases "beta \<le> max alpha r")
      case True
      with Some r3 e show ?thesis by (simp add: simulates_def h2)
    next
      case False
      have "simulates (maxLoop rec (readBoard h3 br) p ms (max alpha r) beta (max mx r)) h3
              (maxLoopH recH h3 br p ms (max alpha r) beta (max mx r))"
        using Cons.IH [OF extends_wfRef [OF e Cons.prems]] .
      then have "simulates (maxLoop rec (readBoard h br) p ms (max alpha r) beta (max mx r)) h
              (maxLoopH recH h3 br p ms (max alpha r) beta (max mx r))"
        using extends_readBoard [OF e Cons.prems] simulates_weaken [OF e] by simp
      with Some r3 False show ?thesis by (simp add: h2)
    qed
  qed
qed

lemma minLoopH_sim:
  assumes rec: "\<And>h2 nb a be. wfRef h2 nb \<Longrightarrow> simulates (rec (readBoard h2 nb) a be) h2 (recH h2 nb a be)"
    and wf: "wfRef h br"
  shows "simulates (minLoop rec (readBoard h br) p ms alpha beta mn) h
           (minLoopH recH h br p ms alpha beta mn)"
  using wf
proof (induction ms arbitrary: h beta mn)
  case Nil
  show ?case by (simp add: simulates_def)
next
  case (Cons m ms)
  let ?nb = "snd (cloneBoardH h br)"
  from clone_set [OF Cons.prems, of m p] obtain rows where
    h2: "setCellH (fst (cloneBoardH h br)) ?nb m p = h @ rows"
    and wf2: "wfRef (h @ rows) ?nb"
    and rd: "readBoard (h @ rows) ?nb = setCell (cloneBoard (readBoard h br)) m p"
    by blast
  from rec [OF wf2, of alpha beta] rd
  have s: "simulates (rec (setCell (cloneBoard (readBoard h br)) m p) alpha beta) (h @ rows)
             (recH (h @ rows) ?nb alpha beta)" by simp
  show ?case
  proof (cases "rec (setCell (cloneBoard (readBoard h br)) m p) alpha beta")
    case None
    with s show ?thesis by (simp add: simulates_def h2)
  next
    case (Some r)
    with s obtain h3 where r3: "recH (h @ rows) ?nb alpha beta = Some (h3, r)"
      and e3: "extends (h @ rows) h3" by (auto simp: simulates_def)
    have e: "extends h h3" using extends_append e3 by (rule extends_trans)
    show ?thesis
    proof (cases "min beta r \<le> alpha")
      case True
      with Some r3 e show ?thesis by (simp add: simulates_def h2)
    next
      case False
      have "simulates (minLoop rec (readBoard h3 br) p ms alpha (min beta r) (min mn r)) h3
              (minLoopH recH h3 br p ms alpha (min beta r) (min mn r))"
        using Cons.IH [OF extends_wfRef [OF e Cons.prems]] .
      then have "simulates (minLoop rec (readBoard h br) p ms alpha (min beta r) (min mn r)) h
              (minLoopH recH h3 br p ms alpha (min beta r) (min mn r))"
        using extends_readBoard [OF e Cons.prems] simulates_weaken [OF e] by simp
      with Some r3 False show ?thesis by (simp add: h2)
    qed
  qed
qed

lemma minimaxH_sim:
  "wfRef h br \<Longrightarrow>
   simulates (minimax n (readBoard h br) d t p opp alpha beta) h (minimaxH n h br d t p opp alpha beta)"
proof (induction n arbitrary: h br d t alpha beta)
  case 0
  show ?case by (simp add: simulates_def)
next
  case (Suc n)
  consider (leaf) "checkWinner (readBoard h br) = p \<or> checkWinner (readBoard h br) = opp
      \<or> isBoardFull (readBoard h br)"
    | (maxn) "checkWinner (readBoard h br) \<noteq> p" "checkWinner (readBoard h br) \<noteq> opp"
        "\<not> isBoardFull (readBoard h br)" "t"
    | (minn) "checkWinner (readBoard h br) \<noteq> p" "checkWinner (readBoard h br) \<noteq> opp"
        "\<not> isBoardFull (readBoard h br)" "\<not> t"
    by blast
  then show ?case
  proof cases
    case leaf
    then show ?thesis by (auto simp: simulates_def)
  next
    case maxn
    have "simulates (maxLoop (\<lambda>b' a be. minimax n b' (d + 1) False p opp a be) (readBoard h br) p
              (getAvailableMoves (readBoard h br)) alpha beta NegInf) h
            (maxLoopH (\<lambda>h' br' a be. minimaxH n h' br' (d + 1) False p opp a be) h br p
              (getAvailableMoves (readBoard h br)) alpha beta NegInf)"
      by (rule maxLoopH_sim [OF _ Suc.prems]) (rule Suc.IH)
    with maxn show ?thesis by simp
  next
    case minn
    have "simulates (minLoop (\<lambda>b' a be. minimax n b' (d + 1) True p opp a be) (readBoard h br) opp
              (getAvailableMoves (readBoard h br)) alpha beta PosInf) h
            (minLoopH (\<lambda>h' br' a be. minimaxH n h' br' (d + 1) True p opp a be) h br opp
              (getAvailableMoves (readBoard h br)) alpha beta PosInf)"
      by (rule minLoopH_sim [OF _ Suc.prems]) (rule Suc.IH)
    with minn show ?thesis by simp
  qed
qed

lemma miniMaxLoopH_sim:
  "wfRef h br \<Longrightarrow>
   simulates (miniMaxLoop n (readBoard h br) p opp ms best) h (miniMaxLoopH n h br p opp ms best)"
proof (induction ms arbitrary: h best)
  case Nil
  show ?case by (simp add: simulates_def)
next
  case (Cons m ms)
  let ?nb = "snd (cloneBoardH h br)"
  from clone_set [OF Cons.prems, of m p] obtain rows where
    h2: "setCellH (fst (cloneBoardH h br)) ?nb m p = h @ rows"
    and wf2: "wfRef (h @ rows) ?nb"
    and rd: "readBoard (h @ rows) ?nb = setCell (cloneBoard (readBoard h br)) m p"
    by blast
  from minimaxH_sim [OF wf2, of searchFuel] rd
  have s: "simulates (minimax n (setCell (cloneBoard (readBoard h br)) m p) 0 False p opp NegInf PosInf)
             (h @ rows) (minimaxH n (h @ rows) ?nb 0 False p opp NegInf PosInf)"
    using minimaxH_sim [OF wf2, of n 0 False p opp NegInf PosInf] by simp
  show ?case
  proof (cases "minimax n (setCell (cloneBoard (readBoard h br)) m p) 0 False p opp NegInf PosInf")
    case None
    with s show ?thesis by (simp add: simulates_def h2)
  next
    case (Some r)
    with s obtain h3 where r3: "minimaxH n (h @ rows) ?nb 0 False p opp NegInf PosInf = Some (h3, r)"
      and e3: "extends (h @ rows) h3" by (auto simp: simulates_def)
    have e: "extends h h3" using extends_append e3 by (rule extends_trans)
    let ?best = "if fst best < r then (r, Some m) else best"
    have "simulates (miniMaxLoop n (readBoard h3 br) p opp ms ?best) h3
            (miniMaxLoopH n h3 br p opp ms ?best)"
      using Cons.IH [OF extends_wfRef [OF e Cons.prems]] .
    then have "simulates (miniMaxLoop n (readBoard h br) p opp ms ?best) h3
            (miniMaxLoopH n h3 br p opp ms ?best)"
      unfolding extends_readBoard [OF e Cons.prems] .
    then have "simulates (miniMaxLoop n (readBoard h br) p opp ms ?best) h
            (miniMaxLoopH n h3 br p opp ms ?best)"
      by (rule simulates_weaken [OF e])
    moreover have "miniMaxLoop n (readBoard h br) p opp (m # ms) best
        = miniMaxLoop n (readBoard h br) p opp ms ?best"
      using Some by simp
    moreover have "miniMaxLoopH n h br p opp (m # ms) best = miniMaxLoopH n h3 br p opp ms ?best"
      using r3 by (simp add: h2)
    ultimately show ?thesis by simp
  qed
qed

lemma getMiniMaxMoveH_sim:
  assumes "wfRef h br"
  shows "extends h (fst (getMiniMaxMoveH h br p opp)) \<and>
         snd (getMiniMaxMoveH h br p opp) = getMiniMaxMove (readBoard h br) p opp"
proof (cases "miniMaxLoop searchFuel (readBoard h br) p opp (getAvailableMoves (readBoard h br)) (NegInf, None)")
  case None
  with miniMaxLoopH_sim [OF assms, of searchFuel p opp "getAvailableMoves (readBoard h br)" "(NegInf, None)"]
  show ?thesis by (simp add: simulates_def getMiniMaxMoveH_def getMiniMaxMove_def)
next
  case (Some best)
  with miniMaxLoopH_sim [OF assms, of searchFuel p opp "getAvailableMoves (readBoard h br)" "(NegInf, None)"]
  obtain h' where "miniMaxLoopH searchFuel h br p opp (getAvailableMoves (readBoard h br)) (NegInf, None)
      = Some (h', best)" "extends h h'" by (auto simp: simulates_def)
  with Some show ?thesis
    by (simp add: getMiniMaxMoveH_def getMiniMaxMove_def split: option.splits)
qed

lemma findWinningMoveH_sim:
  "wfRef h br \<Longrightarrow>
   extends h (fst (findWinningMoveH h br s ms)) \<and>
   snd (findWinningMoveH h br s ms) = findWinningMove (readBoard h br) s ms"
proof (induction ms arbitrary: h)
  case Nil
  show ?case by (simp add: findWinningMove_def)
next
  case (Cons m ms)
  let ?nb = "snd (cloneBoardH h br)"
  from clone_set [OF Cons.prems, of m s] obtain rows where
    h2: "setCellH (fst (cloneBoardH h br)) ?nb m s = h @ rows"
    and wf2: "wfRef (h @ rows) ?nb"
    and rd: "readBoard (h @ rows) ?nb = setCell (cloneBoard (readBoard h br)) m s"
    by blast
  have e: "extends h (h @ rows)" by simp
  show ?case
  proof (cases "checkWinner (setCell (cloneBoard (readBoard h br)) m s) = s")
    case True
    with rd show ?thesis by (simp add: h2 findWinningMove_def)
  next
    case False
    from Cons.IH [OF extends_wfRef [OF e Cons.prems]] extends_readBoard [OF e Cons.prems]
    have "extends (h @ rows) (fst (findWinningMoveH (h @ rows) br s ms)) \<and>
          snd (findWinningMoveH (h @ rows) br s ms) = findWinningMove (readBoard h br) s ms"
      by simp
    then have "extends h (fst (findWinningMoveH (h @ rows) br s ms))"
      and "snd (findWinningMoveH (h @ rows) br s ms) = findWinningMove (readBoard h br) s ms"
      using extends_trans [OF e] by simp_all
    with False rd show ?thesis
      by (simp add: h2 findWinningMove_def)
  qed
qed

lemma getMediumMoveH_sim:
  assumes wf: "wfRef h br"
  shows "extends h (fst (getMediumMoveH u h br p opp ms)) \<and>
         snd (getMediumMoveH u h br p opp ms) = getMediumMove u (readBoard h br) p opp ms"
proof -
  obtain h1 r1 where f1: "findWinningMoveH h br p ms = (h1, r1)" by (cases "findWinningMoveH h br p ms")
  with findWinningMoveH_sim [OF wf, of p ms]
  have e1: "extends h h1" and r1: "findWinningMove (readBoard h br) p ms = r1" by simp_all
  have wf1: "wfRef h1 br" using e1 wf by (rule extends_wfRef)
  have rb1: "readBoard h1 br = readBoard h br" using e1 wf by (rule extends_readBoard)
  obtain h2 r2 where f2: "findWinningMoveH h1 br opp ms = (h2, r2)"
    by (cases "findWinningMoveH h1 br opp ms")
  with findWinningMoveH_sim [OF wf1, of opp ms] rb1
  have e2: "extends h1 h2" and r2: "findWinningMove (readBoard h br) opp ms = r2" by simp_all
  have e12: "extends h h2" using e1 e2 by (rule extends_trans)
  show ?thesis
  proof (cases r1)
    case (Some m)
    with f1 r1 e1 show ?thesis by (simp add: getMediumMoveH_def getMediumMove_def)
  next
    case n1: None
    show ?thesis
    proof (cases r2)
      case (Some m)
      with n1 f1 f2 r1 r2 e12 show ?thesis by (simp add: getMediumMoveH_def getMediumMove_def)
    next
      case n2: None
      with n1 f1 f2 r1 r2 e12 show ?thesis
        by (simp add: getMediumMoveH_def getMediumMove_def split: option.splits)
    qed
  qed
qed

subsection \<open>Pruning, errors and symbols\<close>

text \<open>
  Claim C1.  For every 3x3 board and every pair of non-empty symbols, the pruned search
  and the search without pruning agree: \<open>_getMiniMaxMove\<close> returns the move of the
  unpruned reference, its loop ends in the same best score and best move, every
  candidate gets the same (finite) score, and \<open>_minimax\<close> called with the window
  \<open>(-Infinity, Infinity)\<close> returns the unpruned value at any depth and for either
  side to move.  On a board with an empty cell, \<open>getMove\<close> at difficulty hard
  returns that move.
\<close>

theorem pruning_equivalence:
  assumes "validBoard b" and "truthy p" and "truthy opp"
  shows "getMiniMaxMove b p opp = bruteMove b p opp \<and>
    miniMaxLoop searchFuel b p opp (getAvailableMoves b) (NegInf, None)
      = bruteLoop searchFuel b p opp (getAvailableMoves b) (NegInf, None) \<and>
    (\<forall>m\<in>set (getAvailableMoves b).
       \<exists>k. candidateScore b p opp m = Some (Fin k) \<and> bruteScore b p opp m = Some (Fin k)) \<and>
    (\<forall>n d t. length (getAvailableMoves b) < n \<longrightarrow>
       (\<exists>k. minimax n b d t p opp NegInf PosInf = Some (Fin k) \<and>
            bruteMinimax n b d t p opp = Some (Fin k))) \<and>
    (p \<noteq> opp \<and> \<not> isBoardFull b \<longrightarrow>
       (\<exists>m. getMove Hard u b p opp = Inr (Some m) \<and> bruteMove b p opp = Inr (Some m)))"
proof (intro conjI ballI allI impI)
  show "getMiniMaxMove b p opp = bruteMove b p opp"
    using assms by (rule getMiniMaxMove_bruteMove)
  show "miniMaxLoop searchFuel b p opp (getAvailableMoves b) (NegInf, None)
      = bruteLoop searchFuel b p opp (getAvailableMoves b) (NegInf, None)"
    using assms by (rule loops_equal)
next
  fix m assume m: "m \<in> set (getAvailableMoves b)"
  from bruteScore_total [OF assms m] candidateScore_brute [OF assms m]
  show "\<exists>k. candidateScore b p opp m = Some (Fin k) \<and> bruteScore b p opp m = Some (Fin k)"
    by auto
next
  fix n d t assume "length (getAvailableMoves b) < n"
  then have "numEmpty b < n" by (simp add: length_getAvailableMoves)
  from bruteMinimax_total [OF assms this] obtain k where
    "bruteMinimax n b d t p opp = Some (Fin k)" by blast
  then show "\<exists>k. minimax n b d t p opp NegInf PosInf = Some (Fin k) \<and>
            bruteMinimax n b d t p opp = Some (Fin k)"
    by (simp add: minimax_full_window)
next
  assume a: "p \<noteq> opp \<and> \<not> isBoardFull b"
  from hard_move [OF assms] a obtain m where "getMiniMaxMove b p opp = Inr (Some m)" by blast
  then show "\<exists>m. getMove Hard u b p opp = Inr (Some m) \<and> bruteMove b p opp = Inr (Some m)"
    using getMove_Hard [OF assms, of u] getMiniMaxMove_bruteMove [OF assms] a by simp
qed

theorem pruning_equivalence_witness:
  "validBoard [[Str ''X'', Str ''O'', Str ''X''], [Str ''O'', Str ''X'', Str ''O''], [Str ''O'', Str [], Str []]] \<and>
   truthy (Str ''X'') \<and> truthy (Str ''O'') \<and>
   getMiniMaxMove [[Str ''X'', Str ''O'', Str ''X''], [Str ''O'', Str ''X'', Str ''O''], [Str ''O'', Str [], Str []]]
     (Str ''X'') (Str ''O'')
   = bruteMove [[Str ''X'', Str ''O'', Str ''X''], [Str ''O'', Str ''X'', Str ''O''], [Str ''O'', Str [], Str []]]
     (Str ''X'') (Str ''O'')"
proof -
  let ?b = "[[Str ''X'', Str ''O'', Str ''X''], [Str ''O'', Str ''X'', Str ''O''], [Str ''O'', Str [], Str []]]"
  have v: "validBoard ?b" by (simp add: validBoard_def)
  have p: "truthy (Str ''X'')" and o: "truthy (Str ''O'')" by simp_all
  from pruning_equivalence [OF v p o] v p o show ?thesis by blast
qed

text \<open>
  Claim C3, as amended.  For a 3x3 board and two different non-empty symbols,
  \<open>getMove\<close> throws (\<open>No available moves on the board\<close>) when the board has no empty
  cell, and otherwise returns one of the empty cells, whether or not the board
  already has a winner.
\<close>

theorem getMove_raises_iff_full:
  assumes "validBoard b" and "truthy p" and "truthy opp" and "p \<noteq> opp"
  shows "(isBoardFull b \<longrightarrow> getMove d u b p opp = Inl NoAvailableMoves) \<and>
         (\<not> isBoardFull b \<longrightarrow> (\<exists>m\<in>set (getAvailableMoves b). getMove d u b p opp = Inr (Some m)))"
  using assms by (rule getMove_valid)

theorem getMove_raises_iff_full_witness:
  "(validBoard [[Str ''X'', Str ''O'', Str ''X''], [Str ''O'', Str ''X'', Str ''O''], [Str ''O'', Str ''X'', Str ''O'']] \<and>
    truthy (Str ''X'') \<and> truthy (Str ''O'') \<and> Str ''X'' \<noteq> Str ''O'' \<and>
    isBoardFull [[Str ''X'', Str ''O'', Str ''X''], [Str ''O'', Str ''X'', Str ''O''], [Str ''O'', Str ''X'', Str ''O'']] \<and>
    getMove Hard 0 [[Str ''X'', Str ''O'', Str ''X''], [Str ''O'', Str ''X'', Str ''O''], [Str ''O'', Str ''X'', Str ''O'']]
      (Str ''X'') (Str ''O'') = Inl NoAvailableMoves) \<and>
   (validBoard [[Str ''X'', Str ''O'', Str ''X''], [Str ''O'', Str ''X'', Str ''O''], [Str ''O'', Str ''X'', Str []]] \<and>
    \<not> isBoardFull [[Str ''X'', Str ''O'', Str ''X''], [Str ''O'', Str ''X'', Str ''O''], [Str ''O'', Str ''X'', Str []]] \<and>
    (\<exists>m. getMove Hard 0 [[Str ''X'', Str ''O'', Str ''X''], [Str ''O'', Str ''X'', Str ''O''], [Str ''O'', Str ''X'', Str []]]
      (Str ''X'') (Str ''O'') = Inr (Some m)))"
proof -
  let ?b = "[[Str ''X'', Str ''O'', Str ''X''], [Str ''O'', Str ''X'', Str ''O''], [Str ''O'', Str ''X'', Str ''O'']]"
  let ?c = "[[Str ''X'', Str ''O'', Str ''X''], [Str ''O'', Str ''X'', Str ''O''], [Str ''O'', Str ''X'', Str []]]"
  have v: "validBoard ?b" and w: "validBoard ?c" by (simp_all add: validBoard_def)
  have p: "truthy (Str ''X'')" and o: "truthy (Str ''O'')" and ne: "Str ''X'' \<noteq> Str ''O''" by simp_all
  have f: "isBoardFull ?b" by code_simp
  have g: "\<not> isBoardFull ?c" by code_simp
  from getMove_raises_iff_full [OF v p o ne, of Hard 0] getMove_raises_iff_full [OF w p o ne, of Hard 0]
    v w p o ne f g show ?thesis by blast
qed

text \<open>
  The claim as stated fails: on a board that \<open>X\<close> has already won and that still has
  empty cells, \<open>getMove\<close> returns a move.
\<close>

theorem getMove_winner_board_counterexample:
  "checkWinner [[Str ''X'', Str ''X'', Str ''X''], [Str ''O'', Str ''O'', Str []], [Str [], Str [], Str []]]
     = Str ''X'' \<and>
   getMove Hard 0 [[Str ''X'', Str ''X'', Str ''X''], [Str ''O'', Str ''O'', Str []], [Str [], Str [], Str []]]
     (Str ''O'') (Str ''X'') = Inr (Some (Move 1 2))"
  by code_simp

text \<open>
  Claim C8, as amended.  When a symbol is missing or empty, or the two symbols are
  equal, \<open>getMove\<close> throws before any move is computed: the board error if the board
  is malformed, else the symbol error.  Two different non-empty symbols pass the
  validation whatever they are: on a 3x3 board the only error left is the one for a
  full board.
\<close>

theorem getMove_symbol_errors:
  "((\<not> truthy p \<or> \<not> truthy opp \<or> p = opp) \<longrightarrow>
      getMove d u b p opp =
        (if length b \<noteq> 3 then Inl BoardNot3x3
         else if list_ex (\<lambda>r. length r \<noteq> 3) b then Inl RowNot3Cells
         else if \<not> truthy p \<or> \<not> truthy opp then Inl SymbolsMissing
         else Inl SymbolsEqual)) \<and>
   (validBoard b \<and> truthy p \<and> truthy opp \<and> p \<noteq> opp \<longrightarrow>
      (\<forall>e. getMove d u b p opp = Inl e \<longrightarrow> e = NoAvailableMoves))"
proof (intro conjI impI allI)
  assume "\<not> truthy p \<or> \<not> truthy opp \<or> p = opp"
  then show "getMove d u b p opp =
        (if length b \<noteq> 3 then Inl BoardNot3x3
         else if list_ex (\<lambda>r. length r \<noteq> 3) b then Inl RowNot3Cells
         else if \<not> truthy p \<or> \<not> truthy opp then Inl SymbolsMissing
         else Inl SymbolsEqual)"
    by (auto simp: getMove_def validateBoard_def validateSymbols_def)
next
  fix e
  assume a: "validBoard b \<and> truthy p \<and> truthy opp \<and> p \<noteq> opp" and e: "getMove d u b p opp = Inl e"
  from a getMove_valid [of b p opp d u] e show "e = NoAvailableMoves"
    by (cases "isBoardFull b") auto
qed

theorem getMove_symbol_errors_witness:
  "(Str ''X'' = Str ''X'' \<and>
    getMove Hard 0 [[Str ''X'', Str ''O'', Str ''X''], [Str ''O'', Str ''X'', Str ''O''], [Str ''O'', Str [], Str []]]
      (Str ''X'') (Str ''X'') = Inl SymbolsEqual) \<and>
   (validBoard [[Str ''X'', Str ''O'', Str ''X''], [Str ''O'', Str ''X'', Str ''O''], [Str ''O'', Str [], Str []]] \<and>
    truthy (Str ''Z'') \<and> truthy (Str ''X'') \<and> Str ''Z'' \<noteq> Str ''X'' \<and>
    getMove Hard 0 [[Str ''X'', Str ''O'', Str ''X''], [Str ''O'', Str ''X'', Str ''O''], [Str ''O'', Str [], Str []]]
      (Str ''Z'') (Str ''X'') \<noteq> Inl SymbolsMissing \<and>
    getMove Hard 0 [[Str ''X'', Str ''O'', Str ''X''], [Str ''O'', Str ''X'', Str ''O''], [Str ''O'', Str [], Str []]]
      (Str ''Z'') (Str ''X'') \<noteq> Inl SymbolsEqual)"
proof -
  let ?b = "[[Str ''X'', Str ''O'', Str ''X''], [Str ''O'', Str ''X'', Str ''O''], [Str ''O'', Str [], Str []]]"
  have v: "validBoard ?b" by (simp add: validBoard_def)
  have t: "truthy (Str ''Z'')" "truthy (Str ''X'')" "Str ''Z'' \<noteq> Str ''X''" by simp_all
  from getMove_symbol_errors [of "Str ''X''" "Str ''X''" Hard 0 ?b]
    getMove_symbol_errors [of "Str ''Z''" "Str ''X''" Hard 0 ?b] v t
  show ?thesis by auto
qed

text \<open>
  The claim as stated fails: the symbol \<open>Z\<close> is accepted and a move is returned.
\<close>

theorem getMove_accepts_Z_counterexample:
  "getMove Hard 0 [[Str ''X'', Str ''O'', Str ''X''], [Str ''O'', Str ''X'', Str ''O''], [Str ''O'', Str [], Str []]]
     (Str ''Z'') (Str ''X'') = Inr (Some (Move 2 2))"
  by code_simp

subsection \<open>The choice among the candidates\<close>

text \<open>
  Claim C5.  On a 3x3 board with an empty cell, \<open>getMove\<close> at difficulty hard returns
  an empty cell whose score is maximal among the candidates, and every candidate with
  a lower index has a strictly smaller score: among the moves that attain the
  maximal score it is the one with the lowest index.  The result does not depend on
  the random source, so a repeated call returns the same move.
\<close>

theorem tie_break_lowest_index:
  assumes "validBoard b" and "truthy p" and "truthy opp" and "p \<noteq> opp" and "\<not> isBoardFull b"
  shows "\<exists>m s. getMove Hard u b p opp = Inr (Some m) \<and> m \<in> set (getAvailableMoves b) \<and>
           candidateScore b p opp m = Some s \<and>
           (\<forall>m'\<in>set (getAvailableMoves b). \<exists>s'. candidateScore b p opp m' = Some s' \<and> s' \<le> s \<and>
               (moveIndex m' < moveIndex m \<longrightarrow> s' < s)) \<and>
           getMove Hard u' b p opp = Inr (Some m)"
proof -
  from hard_move [OF assms(1,2,3,5)] obtain s pre m post where
    ms: "getAvailableMoves b = pre @ m # post"
    and r: "getMiniMaxMove b p opp = Inr (Some m)"
    and sm: "candidateScore b p opp m = Some s"
    and all: "\<forall>m'\<in>set (getAvailableMoves b). \<exists>s'. candidateScore b p opp m' = Some s' \<and> s' \<le> s"
    and pre: "\<forall>m'\<in>set pre. \<exists>s'. candidateScore b p opp m' = Some s' \<and> s' < s"
    by blast
  have "\<exists>s'. candidateScore b p opp m' = Some s' \<and> s' \<le> s \<and> (moveIndex m' < moveIndex m \<longrightarrow> s' < s)"
    if m': "m' \<in> set (getAvailableMoves b)" for m'
  proof -
    from all m' obtain s' where s': "candidateScore b p opp m' = Some s'" "s' \<le> s" by blast
    have "s' < s" if "moveIndex m' < moveIndex m"
      using earlier_in_prefix [OF ms m' that] pre s' by auto
    with s' show ?thesis by blast
  qed
  moreover have "getMove Hard u b p opp = Inr (Some m)" "getMove Hard u' b p opp = Inr (Some m)"
    using getMove_Hard [OF assms] r by simp_all
  moreover have "m \<in> set (getAvailableMoves b)" using ms by simp
  ultimately show ?thesis using sm by blast
qed

theorem tie_break_lowest_index_witness:
  "validBoard [[Str ''X'', Str ''X'', Str []], [Str ''X'', Str ''O'', Str ''O''], [Str [], Str ''O'', Str []]] \<and>
   truthy (Str ''X'') \<and> truthy (Str ''O'') \<and> Str ''X'' \<noteq> Str ''O'' \<and>
   \<not> isBoardFull [[Str ''X'', Str ''X'', Str []], [Str ''X'', Str ''O'', Str ''O''], [Str [], Str ''O'', Str []]] \<and>
   candidateScore [[Str ''X'', Str ''X'', Str []], [Str ''X'', Str ''O'', Str ''O''], [Str [], Str ''O'', Str []]]
     (Str ''X'') (Str ''O'') (Move 0 2) = Some (Fin 10) \<and>
   candidateScore [[Str ''X'', Str ''X'', Str []], [Str ''X'', Str ''O'', Str ''O''], [Str [], Str ''O'', Str []]]
     (Str ''X'') (Str ''O'') (Move 2 0) = Some (Fin 10) \<and>
   (\<exists>m. getMove Hard 0 [[Str ''X'', Str ''X'', Str []], [Str ''X'', Str ''O'', Str ''O''], [Str [], Str ''O'', Str []]]
     (Str ''X'') (Str ''O'') = Inr (Some m) \<and> m = Move 0 2)"
proof -
  let ?b = "[[Str ''X'', Str ''X'', Str []], [Str ''X'', Str ''O'', Str ''O''], [Str [], Str ''O'', Str []]]"
  have v: "validBoard ?b" by (simp add: validBoard_def)
  have p: "truthy (Str ''X'')" and o: "truthy (Str ''O'')" and ne: "Str ''X'' \<noteq> Str ''O''" by simp_all
  have nf: "\<not> isBoardFull ?b" by code_simp
  have c1: "candidateScore ?b (Str ''X'') (Str ''O'') (Move 0 2) = Some (Fin 10)" by code_simp
  have c2: "candidateScore ?b (Str ''X'') (Str ''O'') (Move 2 0) = Some (Fin 10)" by code_simp
  have ms: "getAvailableMoves ?b = [Move 0 2, Move 2 0, Move 2 2]" by code_simp
  from tie_break_lowest_index [OF v p o ne nf, of 0 0] obtain m s where
    g: "getMove Hard 0 ?b (Str ''X'') (Str ''O'') = Inr (Some m)"
    and m: "m \<in> set (getAvailableMoves ?b)"
    and s: "candidateScore ?b (Str ''X'') (Str ''O'') m = Some s"
    and a: "\<forall>m'\<in>set (getAvailableMoves ?b). \<exists>s'. candidateScore ?b (Str ''X'') (Str ''O'') m' = Some s'
              \<and> s' \<le> s \<and> (moveIndex m' < moveIndex m \<longrightarrow> s' < s)"
    by blast
  from a ms c1 have "Fin 10 \<le> s \<and> (moveIndex (Move 0 2) < moveIndex m \<longrightarrow> Fin 10 < s)" by simp
  moreover from a ms c2 have "moveIndex (Move 2 0) < moveIndex m \<longrightarrow> Fin 10 < s" by simp
  moreover have "s \<le> Fin 10"
  proof -
    have c3: "candidateScore ?b (Str ''X'') (Str ''O'') (Move 2 2) = Some (Fin 8)" by code_simp
    from m ms s c1 c2 c3 show ?thesis by auto
  qed
  ultimately have "\<not> moveIndex (Move 0 2) < moveIndex m" by auto
  with m ms have "m = Move 0 2" by (auto simp: moveIndex_def)
  with g v p o ne nf c1 c2 show ?thesis by blast
qed




subsection \<open>Games against the hard player\<close>

text \<open>
  Claim C2.  In every game that starts on the empty board, with either side moving
  first, in which the AI makes each of its moves by \<open>getMove\<close> at difficulty hard and
  the opponent plays any empty cell, no board that occurs has a line of three of the
  opponent's symbol, and \<open>_checkWinner\<close> reports the AI or nobody: the game ends in a
  win of the AI or in a draw.  On every such board that is not terminal \<open>getMove\<close>
  does return an empty cell, so the game can go on.
\<close>

theorem hard_ai_never_loses:
  assumes "truthy p" and "truthy opp" and "p \<noteq> opp" and "reachable p opp t b"
  shows "\<not> hasLine b opp \<and>
         checkWinner b \<noteq> opp \<and> (checkWinner b = p \<or> checkWinner b = Null) \<and> validBoard b \<and>
         (t \<and> checkWinner b = Null \<and> \<not> isBoardFull b \<longrightarrow>
            (\<exists>m\<in>set (getAvailableMoves b). getMove Hard u b p opp = Inr (Some m)))"
proof -
  have "notLost p opp t b"
    using notLost_empty [OF assms(1,2,3)] assms(1,2,3,4) by (rule reachable_notLost)
  then have "checkWinner b \<noteq> opp" "validBoard b"
    using notLost_winner [of p opp t b] assms(3) by (simp_all add: notLost_def)
  moreover from this have "checkWinner b = p \<or> checkWinner b = Null"
    using marksOnly_winner [OF _ reachable_marks [OF assms(4)]] by blast
  moreover from \<open>validBoard b\<close> have "\<not> isBoardFull b \<longrightarrow>
      (\<exists>m\<in>set (getAvailableMoves b). getMove Hard u b p opp = Inr (Some m))"
    using getMove_valid [OF _ assms(1,2,3), of b Hard u] by simp
  moreover have "\<not> hasLine b opp"
    using notLost_empty [OF assms(1,2,3)] assms(1,2,3,4) by (rule reachable_no_opp_line)
  ultimately show ?thesis by simp
qed

theorem hard_ai_never_loses_witness:
  "truthy (Str ''O'') \<and> truthy (Str ''X'') \<and> Str ''O'' \<noteq> Str ''X'' \<and>
   reachable (Str ''O'') (Str ''X'') True (setCell (cloneBoard emptyBoard3) (Move 1 1) (Str ''X'')) \<and>
   \<not> hasLine (setCell (cloneBoard emptyBoard3) (Move 1 1) (Str ''X'')) (Str ''X'') \<and>
   checkWinner (setCell (cloneBoard emptyBoard3) (Move 1 1) (Str ''X'')) \<noteq> Str ''X''"
proof -
  have t: "truthy (Str ''O'')" "truthy (Str ''X'')" "Str ''O'' \<noteq> Str ''X''" by simp_all
  have "reachable (Str ''O'') (Str ''X'') False emptyBoard3" by (rule reachable.start)
  moreover have "checkWinner emptyBoard3 = Null" by (rule checkWinner_empty)
  moreover have "Move 1 1 \<in> set (getAvailableMoves emptyBoard3)" by (simp add: moves_empty)
  ultimately have r: "reachable (Str ''O'') (Str ''X'') True
      (setCell (cloneBoard emptyBoard3) (Move 1 1) (Str ''X''))"
    by (rule reachable.oppMove)
  from hard_ai_never_loses [OF t r, of 0] t r show ?thesis by blast
qed

text \<open>
  Claim C7, as amended.  On the empty board with AI = \<open>O\<close>, \<open>getMove\<close> at difficulty
  hard returns row 0, column 0 (index 0): that opening scores 0, no opening scores
  more, and a tie keeps the first candidate.
\<close>

theorem hard_opening_move:
  "getMove Hard u emptyBoard3 (Str ''O'') (Str ''X'') = Inr (Some (Move 0 0)) \<and>
   candidateScore emptyBoard3 (Str ''O'') (Str ''X'') (Move 0 0) = Some (Fin 0) \<and>
   list_all (\<lambda>m. \<exists>k. candidateScore emptyBoard3 (Str ''O'') (Str ''X'') m = Some (Fin k) \<and> k \<le> 0)
     (getAvailableMoves emptyBoard3)"
proof -
  have t: "truthy (Str ''O'')" "truthy (Str ''X'')" "Str ''O'' \<noteq> Str ''X''" by simp_all
  have eq: "\<And>m. m \<in> set (getAvailableMoves emptyBoard3) \<Longrightarrow>
      candidateScore emptyBoard3 (Str ''O'') (Str ''X'') m = bruteScore emptyBoard3 (Str ''O'') (Str ''X'') m"
    using candidateScore_brute [OF validBoard_empty t(1,2)] by blast
  have "Move 0 0 \<in> set (getAvailableMoves emptyBoard3)" by (simp add: moves_empty)
  from eq [OF this] opening_first_score [OF t]
  have "candidateScore emptyBoard3 (Str ''O'') (Str ''X'') (Move 0 0) = Some (Fin 0)" by simp
  moreover have "list_all (\<lambda>m. \<exists>k. candidateScore emptyBoard3 (Str ''O'') (Str ''X'') m = Some (Fin k) \<and> k \<le> 0)
     (getAvailableMoves emptyBoard3)"
    unfolding list_all_iff using opening_scores [OF t] eq by simp
  ultimately show ?thesis using hard_empty [OF t, of u] by simp
qed

text \<open>The claim as stated fails: the move returned on the empty board is not the center.\<close>

theorem hard_opening_not_center_counterexample:
  "getMove Hard 0 emptyBoard3 (Str ''O'') (Str ''X'') = Inr (Some (Move 0 0)) \<and>
   getMove Hard 0 emptyBoard3 (Str ''O'') (Str ''X'') \<noteq> Inr (Some (Move 1 1))"
proof -
  have t: "truthy (Str ''O'')" "truthy (Str ''X'')" "Str ''O'' \<noteq> Str ''X''" by simp_all
  from hard_empty [OF t, of 0] show ?thesis by simp
qed

subsection \<open>The caller's board\<close>

text \<open>
  Claim C9.  For every store, every board whose rows are in the store, every difficulty
  and all symbols, the store after \<open>getMove\<close> extends the store before it: the search
  writes only into the copies it allocates.  So every cell of the caller's board
  reads the same after the call as before, and the call returns what \<open>getMove\<close>
  computes from the cells of the board.
\<close>

theorem getMove_leaves_board:
  assumes "wfRef h br"
  shows "extends h (fst (getMoveH d u h br p opp)) \<and>
         readBoard (fst (getMoveH d u h br p opp)) br = readBoard h br \<and>
         snd (getMoveH d u h br p opp) = getMove d u (readBoard h br) p opp"
proof -
  have "extends h (fst (getMoveH d u h br p opp)) \<and>
        snd (getMoveH d u h br p opp) = getMove d u (readBoard h br) p opp"
  proof (cases "validateBoard (readBoard h br) = None \<and> validateSymbols p opp = None
      \<and> length (getAvailableMoves (readBoard h br)) \<noteq> 0")
    case False
    then show ?thesis
      by (auto simp: getMoveH_def getMove_def split: option.splits)
  next
    case True
    show ?thesis
    proof (cases d)
      case Easy
      with True show ?thesis by (simp add: getMoveH_def getMove_def)
    next
      case Medium
      obtain h' r where m: "getMediumMoveH u h br p opp (getAvailableMoves (readBoard h br)) = (h', r)"
        by (cases "getMediumMoveH u h br p opp (getAvailableMoves (readBoard h br))")
      with getMediumMoveH_sim [OF assms, of u p opp "getAvailableMoves (readBoard h br)"]
      have "extends h h'" "getMediumMove u (readBoard h br) p opp (getAvailableMoves (readBoard h br)) = r"
        by simp_all
      with True Medium m show ?thesis by (simp add: getMoveH_def getMove_def)
    next
      case Hard
      with True getMiniMaxMoveH_sim [OF assms, of p opp]
      show ?thesis by (simp add: getMoveH_def getMove_def)
    qed
  qed
  moreover from this have "readBoard (fst (getMoveH d u h br p opp)) br = readBoard h br"
    by (intro extends_readBoard [OF _ assms]) simp
  ultimately show ?thesis by blast
qed

theorem getMove_leaves_board_witness:
  "wfRef [[Str ''X'', Str ''X'', Str []], [Str ''X'', Str ''O'', Str ''O''], [Str [], Str ''O'', Str []]]
     [0, 1, 2] \<and>
   readBoard (fst (getMoveH Hard 0
       [[Str ''X'', Str ''X'', Str []], [Str ''X'', Str ''O'', Str ''O''], [Str [], Str ''O'', Str []]]
       [0, 1, 2] (Str ''X'') (Str ''O''))) [0, 1, 2]
     = [[Str ''X'', Str ''X'', Str []], [Str ''X'', Str ''O'', Str ''O''], [Str [], Str ''O'', Str []]] \<and>
   length (fst (getMoveH Hard 0
       [[Str ''X'', Str ''X'', Str []], [Str ''X'', Str ''O'', Str ''O''], [Str [], Str ''O'', Str []]]
       [0, 1, 2] (Str ''X'') (Str ''O''))) > 3"
proof -
  let ?h = "[[Str ''X'', Str ''X'', Str []], [Str ''X'', Str ''O'', Str ''O''], [Str [], Str ''O'', Str []]]"
  have wf: "wfRef ?h [0, 1, 2]" by (simp add: wfRef_def)
  have rd: "readBoard ?h [0, 1, 2] = ?h" by (simp add: readBoard_def)
  have ln: "length (fst (getMoveH Hard 0 ?h [0, 1, 2] (Str ''X'') (Str ''O''))) > 3" by code_simp
  from getMove_leaves_board [OF wf, of Hard 0 "Str ''X''" "Str ''O''"] wf rd ln show ?thesis by simp
qed

text \<open>
  An assignment made through the caller's own reference is visible in the board, so
  the property above is not an artefact of the model.
\<close>

lemma setCellH_in_place:
  "readBoard (setCellH [[Str ''X''], [Str []]] [0, 1] (Move 1 0) (Str ''O'')) [0, 1]
     \<noteq> readBoard [[Str ''X''], [Str []]] [0, 1]"
  by (simp add: readBoard_def setCellH_def)

end
